theory Spec2Isabelle
  imports Complex_Main
begin

section \<open>Solar array and battery sizing: the model of \<open>solar.py\<close>\<close>

text \<open>
  The program sizes a solar array and a battery for a constant load. Its four numeric
  functions are \<open>uptime\<close> (the energy-balance simulation), \<open>all_in_system_cost\<close>,
  \<open>cost_and_elasticity\<close> and \<open>find_minimum_system_cost\<close>.

  Python's true division raises \<open>ZeroDivisionError\<close> on a zero divisor (also under
  numba's default error model); every division of the source whose divisor is not a
  non-zero literal is therefore a branch of the model.

  Python's \<open>float\<close> is an IEEE 754 double. The program is modelled twice. The first
  model computes with exact real numbers; it carries the cost functions and the optimizer,
  and the claims settled on it are about the structure of the computation (which
  expressions are evaluated, which calls raise, what the loop compares), which rounding
  does not change. The second model, further down, is \<open>uptime\<close> with every arithmetic
  operation rounded by a function \<open>rnd\<close>; with the rounding \<open>binary64\<close> it is the
  simulation in double precision, and with the identity it is the exact model again.
  The claims about the values that \<open>uptime\<close> computes are settled on the second model.
\<close>

datatype error = ZeroDivisionError

definition py_truediv :: "real \<Rightarrow> real \<Rightarrow> error + real" where
  "py_truediv x y = (if y = 0 then Inl ZeroDivisionError else Inr (x / y))"

subsection \<open>\<open>uptime\<close>\<close>

text \<open>
  The two lists that \<open>uptime\<close> allocates and then fills by index: \<open>battery\<close> has one
  entry more than the solar series, \<open>utilization\<close> has as many.
\<close>

record trajectories =
  battery :: "real list"
  utilization :: "real list"

text \<open>The body of the loop \<open>for i in range(len(sol))\<close>, lines 25 to 39.\<close>

definition interval_step ::
  "real \<Rightarrow> real \<Rightarrow> real \<Rightarrow> real list \<Rightarrow> nat \<Rightarrow> trajectories \<Rightarrow> error + trajectories" where
  "interval_step capacity load t_interval sol i s =
     (let sol_interval = sol ! i;
          remaining_load = (load - sol_interval) * t_interval
      in if sol_interval > load then
           (let excess_solar = sol_interval - load
            in Inr \<lparr>battery = (battery s)[i + 1 := min (battery s ! i + t_interval * excess_solar) capacity],
                    utilization = (utilization s)[i := 1]\<rparr>)
         else if battery s ! i > remaining_load then
           Inr \<lparr>battery = (battery s)[i + 1 := battery s ! i - remaining_load],
                utilization = (utilization s)[i := 1]\<rparr>
         else
           (case py_truediv (sol_interval * t_interval + battery s ! i) (load * t_interval) of
              Inl e \<Rightarrow> Inl e
            | Inr u \<Rightarrow> Inr \<lparr>battery = (battery s)[i + 1 := 0],
                             utilization = (utilization s)[i := u]\<rparr>))"

text \<open>The loop itself, over the indices that \<open>range\<close> yields; an exception ends it.\<close>

fun uptime_loop ::
  "real \<Rightarrow> real \<Rightarrow> real \<Rightarrow> real list \<Rightarrow> nat list \<Rightarrow> trajectories \<Rightarrow> error + trajectories" where
  "uptime_loop capacity load t_interval sol [] s = Inr s"
| "uptime_loop capacity load t_interval sol (i # is) s =
     (case interval_step capacity load t_interval sol i s of
        Inl e \<Rightarrow> Inl e
      | Inr s' \<Rightarrow> uptime_loop capacity load t_interval sol is s')"

text \<open>
  Lines 21 to 39 of \<open>uptime\<close>: the allocation, \<open>t_interval\<close> (which raises on an empty
  series) and the loop. The result is \<open>t_interval\<close> and the filled lists.
\<close>

definition uptime_trajectories :: "real \<Rightarrow> real \<Rightarrow> real list \<Rightarrow> error + (real \<times> trajectories)" where
  "uptime_trajectories capacity load sol =
     (let s0 = \<lparr>battery = [capacity] @ map (\<lambda>_. 0) sol, utilization = map (\<lambda>_. 0) sol\<rparr>
      in case py_truediv (24 * 365) (real (length sol)) of
           Inl e \<Rightarrow> Inl e
         | Inr t_interval \<Rightarrow>
             (case uptime_loop capacity load t_interval sol [0..<length sol] s0 of
                Inl e \<Rightarrow> Inl e
              | Inr s \<Rightarrow> Inr (t_interval, s)))"

text \<open>The counting loop of lines 41 to 43, over \<open>battery[:-1]\<close>.\<close>

fun count_positive :: "real list \<Rightarrow> int \<Rightarrow> int" where
  "count_positive [] batsum = batsum"
| "count_positive (b # bs) batsum = count_positive bs (batsum + (if b > 0 then 1 else 0))"

definition uptime :: "real \<Rightarrow> real \<Rightarrow> real list \<Rightarrow> error + (real \<times> real \<times> real \<times> real)" where
  "uptime capacity load sol =
     (case uptime_trajectories capacity load sol of
        Inl e \<Rightarrow> Inl e
      | Inr (t_interval, s) \<Rightarrow>
          (let batsum = count_positive (butlast (battery s)) 0
           in case py_truediv (real_of_int batsum) (real_of_int (int (length (battery s)) - 1)) of
                Inl e \<Rightarrow> Inl e
              | Inr battery_uptime \<Rightarrow>
                  Inr (capacity, load, battery_uptime,
                       t_interval * sum_list (utilization s) / (24 * 365))))"

subsection \<open>\<open>all_in_system_cost\<close> and \<open>cost_and_elasticity\<close>\<close>

definition all_in_system_cost ::
  "real \<Rightarrow> real \<Rightarrow> real \<Rightarrow> real \<Rightarrow> real \<Rightarrow> real list \<Rightarrow> error + real" where
  "all_in_system_cost solar_cost battery_cost load_cost battery_size array_size sol =
     (case py_truediv battery_size array_size of
        Inl e \<Rightarrow> Inl e
      | Inr capacity_arg \<Rightarrow>
          (case py_truediv 1 array_size of
             Inl e \<Rightarrow> Inl e
           | Inr load_arg \<Rightarrow>
               (case uptime capacity_arg load_arg sol of
                  Inl e \<Rightarrow> Inl e
                | Inr (capacity, load, battery_util, total_util) \<Rightarrow>
                    py_truediv (capacity * battery_cost + solar_cost + load_cost * load)
                               (load * total_util))))"

definition cost_and_elasticity ::
  "real \<Rightarrow> real \<Rightarrow> real \<Rightarrow> real \<Rightarrow> real \<Rightarrow> real list
     \<Rightarrow> error + (real \<times> real \<times> real \<times> real \<times> real)" where
  "cost_and_elasticity solar_cost battery_cost load_cost battery_size array_size sol =
     (let size_to_cost = (\<lambda>b a. all_in_system_cost solar_cost battery_cost load_cost b a sol)
      in case size_to_cost battery_size array_size of
           Inl e \<Rightarrow> Inl e
         | Inr cost \<Rightarrow>
             (case size_to_cost (1.01 * battery_size + 0.01) array_size of
                Inl e \<Rightarrow> Inl e
              | Inr cost_battery \<Rightarrow>
                  (case size_to_cost battery_size (1.01 * array_size + 0.01) of
                     Inl e \<Rightarrow> Inl e
                   | Inr cost_array \<Rightarrow>
                       (case py_truediv (cost - cost_battery) cost of
                          Inl e \<Rightarrow> Inl e
                        | Inr dcost_battery \<Rightarrow>
                            (case py_truediv (cost - cost_array) cost of
                               Inl e \<Rightarrow> Inl e
                             | Inr dcost_array \<Rightarrow>
                                 Inr (cost, cost_battery, cost_array,
                                      dcost_battery, dcost_array))))))"

subsection \<open>\<open>find_minimum_system_cost\<close>\<close>

text \<open>
  The variables the optimizer's loop reads and writes. The source of randomness is a
  parameter of the model: \<open>uniform k\<close> is the value that the \<open>k\<close>-th call of
  \<open>uniform(0.1, 1)\<close> returns, counted from 0. Iteration \<open>i\<close> makes the calls \<open>2 * i\<close>
  (for the battery) and \<open>2 * i + 1\<close> (for the array).
\<close>

record search_state =
  bi :: real
  ai :: real
  cost_min :: real
  bi_min :: real
  ai_min :: real

definition search_iteration ::
  "real \<Rightarrow> real \<Rightarrow> real \<Rightarrow> real list \<Rightarrow> real \<Rightarrow> (nat \<Rightarrow> real) \<Rightarrow> nat \<Rightarrow> search_state
     \<Rightarrow> error + search_state" where
  "search_iteration solar_cost battery_cost load_cost sol amplitude uniform i st =
     (case cost_and_elasticity solar_cost battery_cost load_cost (bi st) (ai st) sol of
        Inl e \<Rightarrow> Inl e
      | Inr (cost, cost_bat, cost_arr, dcost_bat, dcost_arr) \<Rightarrow>
          (let st1 = (if cost < cost_min st
                      then st\<lparr>ai_min := ai st, bi_min := bi st, cost_min := cost\<rparr>
                      else st);
               bi' = max 0 (bi st1 + amplitude * uniform (2 * i) * dcost_bat);
               ai' = max 0.01 (ai st1 + amplitude * uniform (2 * i + 1) * dcost_arr)
           in Inr (st1\<lparr>bi := bi', ai := ai'\<rparr>)))"

fun search_loop ::
  "real \<Rightarrow> real \<Rightarrow> real \<Rightarrow> real list \<Rightarrow> real \<Rightarrow> (nat \<Rightarrow> real) \<Rightarrow> nat list \<Rightarrow> search_state
     \<Rightarrow> error + search_state" where
  "search_loop solar_cost battery_cost load_cost sol amplitude uniform [] st = Inr st"
| "search_loop solar_cost battery_cost load_cost sol amplitude uniform (i # is) st =
     (case search_iteration solar_cost battery_cost load_cost sol amplitude uniform i st of
        Inl e \<Rightarrow> Inl e
      | Inr st' \<Rightarrow> search_loop solar_cost battery_cost load_cost sol amplitude uniform is st')"

text \<open>Lines 85 to 93: the initial sizes, the step amplitude and the initial best.\<close>

definition initial_size :: "real \<Rightarrow> real" where
  "initial_size load_cost = min 10 (10 * load_cost / 5000000)"

definition step_amplitude :: "real \<Rightarrow> real" where
  "step_amplitude load_cost =
     (let amplitude = 10 + 70 * (load_cost / 5000000);
          amplitude = (if 700000 < load_cost \<and> load_cost < 1300000 then amplitude * 3 else amplitude);
          amplitude = (if 80000000 < load_cost then amplitude * 0.5 else amplitude)
      in amplitude)"

definition initial_state :: "real \<Rightarrow> search_state" where
  "initial_state load_cost =
     \<lparr>bi = initial_size load_cost, ai = initial_size load_cost, cost_min = 10 ^ 10,
      bi_min = initial_size load_cost, ai_min = initial_size load_cost\<rparr>"

type_synonym report =
  "(real \<times> real \<times> real) \<times> (real \<times> real \<times> real) \<times> (real \<times> real \<times> real)
     \<times> (real \<times> real \<times> real) \<times> (real \<times> real \<times> real \<times> real)"

definition find_minimum_system_cost ::
  "real \<Rightarrow> real \<Rightarrow> real \<Rightarrow> real list \<Rightarrow> (nat \<Rightarrow> real) \<Rightarrow> error + report" where
  "find_minimum_system_cost solar_cost battery_cost load_cost sol uniform =
     (case search_loop solar_cost battery_cost load_cost sol (step_amplitude load_cost) uniform
             [0..<100] (initial_state load_cost) of
        Inl e \<Rightarrow> Inl e
      | Inr st \<Rightarrow>
          (case py_truediv (bi_min st) (ai_min st) of
             Inl e \<Rightarrow> Inl e
           | Inr capacity_arg \<Rightarrow>
               (case py_truediv 1 (ai_min st) of
                  Inl e \<Rightarrow> Inl e
                | Inr load_arg \<Rightarrow>
                    (case uptime capacity_arg load_arg sol of
                       Inl e \<Rightarrow> Inl e
                     | Inr ut \<Rightarrow>
                         (let array_cost = solar_cost * ai_min st;
                              storage_cost = battery_cost * bi_min st;
                              total_cost = array_cost + storage_cost + load_cost
                          in case py_truediv total_cost (snd (snd (snd ut))) of
                               Inl e \<Rightarrow> Inl e
                             | Inr levelized \<Rightarrow>
                                 Inr ((solar_cost, battery_cost, load_cost),
                                      (ai_min st, bi_min st, 1),
                                      (array_cost, storage_cost, load_cost),
                                      (array_cost + storage_cost, total_cost, levelized),
                                      ut))))))"

subsection \<open>Rounding to double precision\<close>

text \<open>
  Rounding of a real number to the nearest integer, ties to the even one.
\<close>

definition round_half_even :: "real \<Rightarrow> int" where
  "round_half_even y =
     (let f = \<lfloor>y\<rfloor>; r = y - of_int f
      in if r < 1 / 2 then f else if 1 / 2 < r then f + 1 else if even f then f else f + 1)"

text \<open>
  The exponent of the binade of \<open>x\<close>, not below the smallest normal exponent \<open>-1022\<close>,
  and the distance between neighbouring doubles there: 52 fraction bits, gradual
  underflow below \<open>2 ^ -1022\<close>.
\<close>

definition exponent64 :: "real \<Rightarrow> int" where
  "exponent64 x = max \<lfloor>log 2 \<bar>x\<bar>\<rfloor> (- 1022)"

definition quantum :: "real \<Rightarrow> real" where
  "quantum x = 2 powr (of_int (exponent64 x) - 52)"

text \<open>
  The double nearest to \<open>x\<close>, ties to even: the result of one IEEE 754 binary64 operation
  whose exact result is \<open>x\<close>, as long as it is finite. Overflow to infinity and NaN are
  not part of the model; the claims below bound the inputs so that no operation of
  \<open>uptime\<close> overflows.
\<close>

definition binary64 :: "real \<Rightarrow> real" where
  "binary64 x = (if x = 0 then 0 else of_int (round_half_even (x / quantum x)) * quantum x)"

text \<open>
  A double of magnitude at most \<open>2 ^ 1000\<close>. With a capacity, a load and solar samples in
  this range every intermediate value of \<open>uptime\<close> stays below \<open>2 ^ 1024\<close>: the products
  with \<open>t_interval \<le> 8760\<close> and the sums of two such values do, and the one quotient
  that is not by \<open>len(sol)\<close> or 8760 divides a value by one that is not smaller up to
  rounding.
\<close>

definition double_in_range :: "real \<Rightarrow> bool" where
  "double_in_range x \<longleftrightarrow> binary64 x = x \<and> \<bar>x\<bar> \<le> 2 ^ 1000"

subsection \<open>\<open>uptime\<close> with rounded arithmetic\<close>

text \<open>
  The same lines of \<open>uptime\<close>, with the result of every floating-point operation passed
  through \<open>rnd\<close>: each subtraction, product, sum and quotient of the source is rounded
  once, in the order in which the source evaluates it. Comparisons, \<open>min\<close> and the
  stores \<open>utilization[i] = 1\<close> and \<open>battery[i + 1] = 0\<close> are exact. \<open>len(sol)\<close> and the
  count \<open>batsum\<close> are integers, converted without error.
\<close>

definition py_truediv_fp :: "(real \<Rightarrow> real) \<Rightarrow> real \<Rightarrow> real \<Rightarrow> error + real" where
  "py_truediv_fp rnd x y = (if y = 0 then Inl ZeroDivisionError else Inr (rnd (x / y)))"

definition interval_step_fp ::
  "(real \<Rightarrow> real) \<Rightarrow> real \<Rightarrow> real \<Rightarrow> real \<Rightarrow> real list \<Rightarrow> nat \<Rightarrow> trajectories
     \<Rightarrow> error + trajectories" where
  "interval_step_fp rnd capacity load t_interval sol i s =
     (let sol_interval = sol ! i;
          remaining_load = rnd (rnd (load - sol_interval) * t_interval)
      in if sol_interval > load then
           (let excess_solar = rnd (sol_interval - load)
            in Inr \<lparr>battery = (battery s)[i + 1 :=
                               min (rnd (battery s ! i + rnd (t_interval * excess_solar))) capacity],
                    utilization = (utilization s)[i := 1]\<rparr>)
         else if battery s ! i > remaining_load then
           Inr \<lparr>battery = (battery s)[i + 1 := rnd (battery s ! i - remaining_load)],
                utilization = (utilization s)[i := 1]\<rparr>
         else
           (case py_truediv_fp rnd (rnd (rnd (sol_interval * t_interval) + battery s ! i))
                               (rnd (load * t_interval)) of
              Inl e \<Rightarrow> Inl e
            | Inr u \<Rightarrow> Inr \<lparr>battery = (battery s)[i + 1 := 0],
                             utilization = (utilization s)[i := u]\<rparr>))"

fun uptime_loop_fp ::
  "(real \<Rightarrow> real) \<Rightarrow> real \<Rightarrow> real \<Rightarrow> real \<Rightarrow> real list \<Rightarrow> nat list \<Rightarrow> trajectories
     \<Rightarrow> error + trajectories" where
  "uptime_loop_fp rnd capacity load t_interval sol [] s = Inr s"
| "uptime_loop_fp rnd capacity load t_interval sol (i # is) s =
     (case interval_step_fp rnd capacity load t_interval sol i s of
        Inl e \<Rightarrow> Inl e
      | Inr s' \<Rightarrow> uptime_loop_fp rnd capacity load t_interval sol is s')"

definition uptime_trajectories_fp ::
  "(real \<Rightarrow> real) \<Rightarrow> real \<Rightarrow> real \<Rightarrow> real list \<Rightarrow> error + (real \<times> trajectories)" where
  "uptime_trajectories_fp rnd capacity load sol =
     (let s0 = \<lparr>battery = [capacity] @ map (\<lambda>_. 0) sol, utilization = map (\<lambda>_. 0) sol\<rparr>
      in case py_truediv_fp rnd (rnd (24 * 365)) (real (length sol)) of
           Inl e \<Rightarrow> Inl e
         | Inr t_interval \<Rightarrow>
             (case uptime_loop_fp rnd capacity load t_interval sol [0..<length sol] s0 of
                Inl e \<Rightarrow> Inl e
              | Inr s \<Rightarrow> Inr (t_interval, s)))"

text \<open>
  \<open>sum(utilization)\<close>: the compiled loop adds the entries from left to right, starting
  from 0.
\<close>

fun sum_fp :: "(real \<Rightarrow> real) \<Rightarrow> real list \<Rightarrow> real \<Rightarrow> real" where
  "sum_fp rnd [] acc = acc"
| "sum_fp rnd (u # us) acc = sum_fp rnd us (rnd (acc + u))"

definition uptime_fp ::
  "(real \<Rightarrow> real) \<Rightarrow> real \<Rightarrow> real \<Rightarrow> real list \<Rightarrow> error + (real \<times> real \<times> real \<times> real)" where
  "uptime_fp rnd capacity load sol =
     (case uptime_trajectories_fp rnd capacity load sol of
        Inl e \<Rightarrow> Inl e
      | Inr (t_interval, s) \<Rightarrow>
          (let batsum = count_positive (butlast (battery s)) 0
           in case py_truediv_fp rnd (real_of_int batsum)
                     (real_of_int (int (length (battery s)) - 1)) of
                Inl e \<Rightarrow> Inl e
              | Inr battery_uptime \<Rightarrow>
                  Inr (capacity, load, battery_uptime,
                       rnd (rnd (t_interval * sum_fp rnd (utilization s) 0) / (24 * 365)))))"

subsection \<open>Auxiliary notions for the proofs\<close>

text \<open>
  What one interval does to the battery charge \<open>b\<close> under solar power \<open>x\<close>: the
  utilization of the interval and the next charge. It is the body of \<open>interval_step\<close>
  without the lists, as lemma \<open>interval_step_dispatch\<close> states.
\<close>

definition dispatch :: "real \<Rightarrow> real \<Rightarrow> real \<Rightarrow> real \<Rightarrow> real \<Rightarrow> error + (real \<times> real)" where
  "dispatch capacity load t b x =
     (if x > load then Inr (1, min (b + t * (x - load)) capacity)
      else if b > (load - x) * t then Inr (1, b - (load - x) * t)
      else (case py_truediv (x * t + b) (load * t) of
              Inl e \<Rightarrow> Inl e
            | Inr u \<Rightarrow> Inr (u, 0)))"

text \<open>
  The lists of \<open>s\<close> have the lengths that \<open>uptime\<close> allocates and obey the dispatch
  rule on the first \<open>k\<close> intervals.
\<close>

definition follows :: "real \<Rightarrow> real \<Rightarrow> real \<Rightarrow> real list \<Rightarrow> nat \<Rightarrow> trajectories \<Rightarrow> bool" where
  "follows capacity load t sol k s \<longleftrightarrow>
     length (battery s) = Suc (length sol) \<and> length (utilization s) = length sol \<and>
     (\<forall>i<k. dispatch capacity load t (battery s ! i) (sol ! i)
               = Inr (utilization s ! i, battery s ! Suc i))"

text \<open>
  The first \<open>k\<close> intervals left the battery at the charge \<open>b\<close> and served the whole
  load: the state of the lists when the solar power equals the load.
\<close>

definition held :: "real \<Rightarrow> nat \<Rightarrow> nat \<Rightarrow> trajectories \<Rightarrow> bool" where
  "held b n k s \<longleftrightarrow>
     length (battery s) = Suc n \<and> length (utilization s) = n \<and>
     (\<forall>j\<le>k. battery s ! j = b) \<and> (\<forall>j<k. utilization s ! j = 1)"

text \<open>
  The states after each completed iteration of the optimizer's loop, in order; the list
  ends where an iteration raises. Its last entry is the state that \<open>search_loop\<close>
  returns (lemma \<open>search_loop_updates\<close>).
\<close>

fun search_updates ::
  "real \<Rightarrow> real \<Rightarrow> real \<Rightarrow> real list \<Rightarrow> real \<Rightarrow> (nat \<Rightarrow> real) \<Rightarrow> nat list \<Rightarrow> search_state
     \<Rightarrow> search_state list" where
  "search_updates solar_cost battery_cost load_cost sol amplitude uniform [] st = []"
| "search_updates solar_cost battery_cost load_cost sol amplitude uniform (i # is) st =
     (case search_iteration solar_cost battery_cost load_cost sol amplitude uniform i st of
        Inl e \<Rightarrow> []
      | Inr st' \<Rightarrow>
          st' # search_updates solar_cost battery_cost load_cost sol amplitude uniform is st')"

text \<open>
  The best sizes of \<open>st\<close> have a cost, which is at most \<open>c0\<close> and at least the tracked
  \<open>cost_min\<close>.
\<close>

definition tracked :: "real \<Rightarrow> real \<Rightarrow> real \<Rightarrow> real list \<Rightarrow> real \<Rightarrow> search_state \<Rightarrow> bool" where
  "tracked solar_cost battery_cost load_cost sol c0 st \<longleftrightarrow>
     (\<exists>c. all_in_system_cost solar_cost battery_cost load_cost (bi_min st) (ai_min st) sol = Inr c
          \<and> c \<le> c0 \<and> cost_min st \<le> c)"

text \<open>A source of randomness for the examples: every draw is the midpoint of the interval.\<close>

definition midpoint_draws :: "nat \<Rightarrow> real" where
  "midpoint_draws k = 11 / 20"

text \<open>The state in which the search of the example run stays.\<close>

definition settled :: search_state where
  "settled = \<lparr>bi = 10, ai = 10, cost_min = 5000000, bi_min = 10, ai_min = 10\<rparr>"

text \<open>
  What the proofs use of a rounding function: it is monotone, keeps 0 and 1, and leaves
  its own results unchanged.
\<close>

definition rounding :: "(real \<Rightarrow> real) \<Rightarrow> bool" where
  "rounding rnd \<longleftrightarrow>
     (\<forall>x y. x \<le> y \<longrightarrow> rnd x \<le> rnd y) \<and> rnd 0 = 0 \<and> rnd 1 = 1 \<and> (\<forall>x. rnd (rnd x) = rnd x)"

text \<open>The rounded counterparts of \<open>dispatch\<close> and \<open>follows\<close>.\<close>

definition dispatch_fp ::
  "(real \<Rightarrow> real) \<Rightarrow> real \<Rightarrow> real \<Rightarrow> real \<Rightarrow> real \<Rightarrow> real \<Rightarrow> error + (real \<times> real)" where
  "dispatch_fp rnd capacity load t b x =
     (if x > load then Inr (1, min (rnd (b + rnd (t * rnd (x - load)))) capacity)
      else if b > rnd (rnd (load - x) * t) then Inr (1, rnd (b - rnd (rnd (load - x) * t)))
      else (case py_truediv_fp rnd (rnd (rnd (x * t) + b)) (rnd (load * t)) of
              Inl e \<Rightarrow> Inl e
            | Inr u \<Rightarrow> Inr (u, 0)))"

definition follows_fp ::
  "(real \<Rightarrow> real) \<Rightarrow> real \<Rightarrow> real \<Rightarrow> real \<Rightarrow> real list \<Rightarrow> nat \<Rightarrow> trajectories \<Rightarrow> bool" where
  "follows_fp rnd capacity load t sol k s \<longleftrightarrow>
     length (battery s) = Suc (length sol) \<and> length (utilization s) = length sol \<and>
     (\<forall>i<k. dispatch_fp rnd capacity load t (battery s ! i) (sol ! i)
               = Inr (utilization s ! i, battery s ! Suc i))"

section \<open>The simulation loop in exact arithmetic\<close>

lemma interval_step_dispatch:
  "interval_step capacity load t sol i s =
     (case dispatch capacity load t (battery s ! i) (sol ! i) of
        Inl e \<Rightarrow> Inl e
      | Inr (u, b') \<Rightarrow> Inr \<lparr>battery = (battery s)[i + 1 := b'],
                            utilization = (utilization s)[i := u]\<rparr>)"
  by (simp add: interval_step_def dispatch_def Let_def split: sum.splits)

lemma uptime_loop_append:
  "uptime_loop capacity load t sol (is @ js) s =
     (case uptime_loop capacity load t sol is s of
        Inl e \<Rightarrow> Inl e
      | Inr s' \<Rightarrow> uptime_loop capacity load t sol js s')"
  by (induction "is" arbitrary: s) (auto split: sum.splits)

lemma dispatch_ok:
  "load * t \<noteq> 0 \<Longrightarrow> \<exists>u b'. dispatch capacity load t b x = Inr (u, b')"
  by (simp add: dispatch_def py_truediv_def)

lemma uptime_loop_follows:
  assumes "load * t \<noteq> 0" and "k \<le> length sol"
    and "length (battery s0) = Suc (length sol)" and "length (utilization s0) = length sol"
  shows "\<exists>s. uptime_loop capacity load t sol [0..<k] s0 = Inr s
              \<and> follows capacity load t sol k s \<and> battery s ! 0 = battery s0 ! 0"
  using assms(2)
proof (induction k)
  case 0
  then show ?case using assms by (simp add: follows_def)
next
  case (Suc k)
  then obtain s where s: "uptime_loop capacity load t sol [0..<k] s0 = Inr s"
    "follows capacity load t sol k s" "battery s ! 0 = battery s0 ! 0"
    by auto
  obtain u b' where d: "dispatch capacity load t (battery s ! k) (sol ! k) = Inr (u, b')"
    using dispatch_ok [OF assms(1)] by blast
  let ?s' = "\<lparr>battery = (battery s)[k + 1 := b'], utilization = (utilization s)[k := u]\<rparr>"
  have step: "interval_step capacity load t sol k s = Inr ?s'"
    by (simp add: interval_step_dispatch d)
  have run: "uptime_loop capacity load t sol [0..<Suc k] s0 = Inr ?s'"
    by (simp add: uptime_loop_append s(1) step)
  have len: "Suc k < length (battery s)" "k < length (utilization s)"
    using s(2) Suc.prems by (simp_all add: follows_def)
  have "follows capacity load t sol (Suc k) ?s'"
    using s(2) d len
    by (auto simp: follows_def less_Suc_eq nth_list_update)
  moreover have "battery ?s' ! 0 = battery s0 ! 0"
    using s(3) by simp
  ultimately show ?case using run by blast
qed

lemma dispatch_bounds:
  assumes "0 < t" "0 < load" "0 \<le> capacity" "0 \<le> x" "0 \<le> b" "b \<le> capacity"
    and "dispatch capacity load t b x = Inr (u, b')"
  shows "0 \<le> b' \<and> b' \<le> capacity \<and> 0 \<le> u \<and> u \<le> 1"
proof (cases "x > load")
  case True
  with assms show ?thesis by (auto simp: dispatch_def)
next
  case False
  then have rem: "0 \<le> (load - x) * t" using assms(1) by simp
  show ?thesis
  proof (cases "b > (load - x) * t")
    case True
    then have "u = 1" "b' = b - (load - x) * t"
      using assms(7) False by (auto simp: dispatch_def)
    moreover have "0 \<le> b - (load - x) * t" "b - (load - x) * t \<le> capacity"
      using True rem assms(6) by linarith+
    ultimately show ?thesis by simp
  next
    case nb: False
    have pos: "0 < load * t" using assms by simp
    have u: "u = (x * t + b) / (load * t)" and b': "b' = 0"
      using assms(1,2,7) False nb by (auto simp: dispatch_def py_truediv_def)
    have "x * t + b \<le> load * t" using nb by (simp add: algebra_simps)
    then have "u \<le> 1" using pos u by simp
    moreover have "0 \<le> u" using u pos assms by simp
    ultimately show ?thesis using b' assms by simp
  qed
qed

lemma dispatch_mono:
  assumes "0 < t" "0 < load" "b1 \<le> b2" "c1 \<le> c2"
    and "dispatch c1 load t b1 x = Inr (u1, b1')"
    and "dispatch c2 load t b2 x = Inr (u2, b2')"
  shows "u1 \<le> u2 \<and> b1' \<le> b2'"
proof (cases "x > load")
  case True
  with assms show ?thesis by (auto simp: dispatch_def)
next
  case False
  have pos: "0 < load * t" using assms by simp
  show ?thesis
  proof (cases "b1 > (load - x) * t")
    case True
    with False assms show ?thesis by (auto simp: dispatch_def)
  next
    case nb: False
    have u1: "u1 = (x * t + b1) / (load * t)" and b1': "b1' = 0"
      using assms(1,2,5) False nb by (auto simp: dispatch_def py_truediv_def)
    have "x * t + b1 \<le> load * t" using nb by (simp add: algebra_simps)
    then have u1_le: "u1 \<le> 1" using pos u1 by simp
    show ?thesis
    proof (cases "b2 > (load - x) * t")
      case True
      then have "u2 = 1" "b2' = b2 - (load - x) * t"
        using assms(6) False by (auto simp: dispatch_def)
      with True u1_le b1' show ?thesis by simp
    next
      case nb2: False
      have "u2 = (x * t + b2) / (load * t)" "b2' = 0"
        using assms(1,2,6) False nb2 by (auto simp: dispatch_def py_truediv_def)
      with u1 b1' assms(3) pos show ?thesis by (simp add: divide_right_mono)
    qed
  qed
qed

lemma dispatch_no_battery:
  assumes "0 < t" "0 < load"
  shows "dispatch 0 load t 0 x = Inr (min (x / load) 1, 0)"
proof (cases "x > load")
  case True
  then have "1 < x / load" using assms by simp
  moreover have "0 < t * (x - load)" using True assms by simp
  ultimately show ?thesis using True by (simp add: dispatch_def min_def)
next
  case False
  then have "x / load \<le> 1" using assms by simp
  moreover have "\<not> 0 > (load - x) * t" using False assms by (simp add: mult_less_0_iff)
  ultimately show ?thesis using False assms by (simp add: dispatch_def py_truediv_def min_def)
qed

lemma dispatch_balanced_charged:
  "0 < b \<Longrightarrow> dispatch capacity load t b load = Inr (1, b)"
  by (simp add: dispatch_def)

lemma dispatch_balanced_empty:
  "load * t \<noteq> 0 \<Longrightarrow> dispatch capacity load t 0 load = Inr (1, 0)"
  by (simp add: dispatch_def py_truediv_def)

lemma follows_battery_bounds:
  assumes "follows capacity load t sol k s" "0 < t" "0 < load" "0 \<le> capacity"
    and "\<forall>x\<in>set sol. 0 \<le> x" "k \<le> length sol" "battery s ! 0 = capacity"
  shows "i \<le> k \<Longrightarrow> 0 \<le> battery s ! i \<and> battery s ! i \<le> capacity"
proof (induction i)
  case 0
  then show ?case using assms by simp
next
  case (Suc i)
  then have ih: "0 \<le> battery s ! i" "battery s ! i \<le> capacity" and ik: "i < k" by simp_all
  have d: "dispatch capacity load t (battery s ! i) (sol ! i) = Inr (utilization s ! i, battery s ! Suc i)"
    using assms(1) ik by (simp add: follows_def)
  have "0 \<le> sol ! i" using assms(5,6) ik by simp
  from dispatch_bounds [OF assms(2,3,4) this ih d] show ?case by simp
qed

lemma follows_utilization_bounds:
  assumes "follows capacity load t sol k s" "0 < t" "0 < load" "0 \<le> capacity"
    and "\<forall>x\<in>set sol. 0 \<le> x" "k \<le> length sol" "battery s ! 0 = capacity" "i < k"
  shows "0 \<le> utilization s ! i \<and> utilization s ! i \<le> 1"
proof -
  have b: "0 \<le> battery s ! i \<and> battery s ! i \<le> capacity"
    using follows_battery_bounds [OF assms(1-7), of i] assms(8) by simp
  have d: "dispatch capacity load t (battery s ! i) (sol ! i) = Inr (utilization s ! i, battery s ! Suc i)"
    using assms(1,8) by (simp add: follows_def)
  have "0 \<le> sol ! i" using assms(5,6,8) by simp
  from dispatch_bounds [OF assms(2,3,4) this _ _ d] b show ?thesis by simp
qed

lemma uptime_trajectories_empty: "uptime_trajectories capacity load [] = Inl ZeroDivisionError"
  by (simp add: uptime_trajectories_def py_truediv_def)

lemma uptime_empty: "uptime capacity load [] = Inl ZeroDivisionError"
  by (simp add: uptime_def uptime_trajectories_empty)

lemma uptime_trajectories_follows:
  assumes "sol \<noteq> []" "load \<noteq> 0"
  shows "\<exists>s. uptime_trajectories capacity load sol = Inr (8760 / real (length sol), s)
              \<and> follows capacity load (8760 / real (length sol)) sol (length sol) s
              \<and> battery s ! 0 = capacity"
proof -
  let ?t = "8760 / real (length sol)"
  let ?s0 = "\<lparr>battery = [capacity] @ map (\<lambda>_. 0) sol, utilization = map (\<lambda>_. 0) sol\<rparr>"
  have n: "real (length sol) \<noteq> 0" using assms(1) by simp
  then have "load * ?t \<noteq> 0" using assms(2) by simp
  from uptime_loop_follows [OF this, of "length sol" sol ?s0 capacity]
  obtain s where s: "uptime_loop capacity load ?t sol [0..<length sol] ?s0 = Inr s"
    "follows capacity load ?t sol (length sol) s" "battery s ! 0 = capacity"
    by auto
  have "uptime_trajectories capacity load sol = Inr (?t, s)"
    using n s(1) by (simp add: uptime_trajectories_def py_truediv_def)
  with s show ?thesis by blast
qed

lemma count_positive_filter:
  "count_positive xs batsum = batsum + int (length (filter (\<lambda>b. b > 0) xs))"
  by (induction xs arbitrary: batsum) simp_all

lemma uptime_of_trajectories:
  assumes "uptime_trajectories capacity load sol = Inr (t, s)"
    and "length (battery s) = Suc (length sol)" "sol \<noteq> []"
  shows "uptime capacity load sol =
           Inr (capacity, load,
                real (length (filter (\<lambda>b. b > 0) (butlast (battery s)))) / real (length sol),
                t * sum_list (utilization s) / 8760)"
  using assms by (simp add: uptime_def py_truediv_def count_positive_filter)

lemma sum_list_unit_bounds:
  fixes xs :: "real list"
  assumes "\<forall>i<length xs. 0 \<le> xs ! i \<and> xs ! i \<le> 1"
  shows "0 \<le> sum_list xs \<and> sum_list xs \<le> real (length xs)"
proof -
  have "sum_list xs = (\<Sum>i = 0..<length xs. xs ! i)" by (rule sum_list_sum_nth)
  moreover have "0 \<le> (\<Sum>i = 0..<length xs. xs ! i)"
    using assms by (intro sum_nonneg) simp
  moreover have "(\<Sum>i = 0..<length xs. xs ! i) \<le> (\<Sum>i = 0..<length xs. 1)"
    using assms by (intro sum_mono) simp
  ultimately show ?thesis by simp
qed

lemma served_fraction_bounds:
  fixes xs :: "real list"
  assumes "xs \<noteq> []" "\<forall>i<length xs. 0 \<le> xs ! i \<and> xs ! i \<le> 1"
  shows "0 \<le> 8760 / real (length xs) * sum_list xs / 8760
         \<and> 8760 / real (length xs) * sum_list xs / 8760 \<le> 1"
proof -
  have n: "0 < real (length xs)" using assms(1) by simp
  have eq: "8760 / real (length xs) * sum_list xs / 8760 = sum_list xs / real (length xs)"
    by simp
  from sum_list_unit_bounds [OF assms(2)] n show ?thesis
    unfolding eq by simp
qed

section \<open>The simulation in exact arithmetic\<close>

text \<open>
  In exact arithmetic the battery list stays between 0 and the capacity and every
  utilization lies between 0 and 1, as do both returned fractions.
\<close>

lemma uptime_invariants:
  assumes "\<forall>x\<in>set sol. 0 \<le> x" "0 < load" "0 \<le> capacity"
  shows "(sol = [] \<longrightarrow> uptime capacity load sol = Inl ZeroDivisionError) \<and>
         (sol \<noteq> [] \<longrightarrow>
            (\<exists>t s battery_uptime load_served.
               uptime_trajectories capacity load sol = Inr (t, s) \<and>
               length (battery s) = length sol + 1 \<and>
               length (utilization s) = length sol \<and>
               battery s ! 0 = capacity \<and>
               (\<forall>i<length (battery s). 0 \<le> battery s ! i \<and> battery s ! i \<le> capacity) \<and>
               (\<forall>i<length (utilization s). 0 \<le> utilization s ! i \<and> utilization s ! i \<le> 1) \<and>
               uptime capacity load sol = Inr (capacity, load, battery_uptime, load_served) \<and>
               0 \<le> battery_uptime \<and> battery_uptime \<le> 1 \<and>
               0 \<le> load_served \<and> load_served \<le> 1))"
proof (cases "sol = []")
  case True
  then show ?thesis by (simp add: uptime_empty)
next
  case False
  let ?n = "length sol"
  let ?t = "8760 / real ?n"
  have t: "0 < ?t" using False by simp
  from uptime_trajectories_follows [OF False, of load capacity] assms(2)
  obtain s where s: "uptime_trajectories capacity load sol = Inr (?t, s)"
    "follows capacity load ?t sol ?n s" "battery s ! 0 = capacity"
    by auto
  have len: "length (battery s) = ?n + 1" "length (utilization s) = ?n"
    using s(2) by (simp_all add: follows_def)
  have bat: "\<forall>i<length (battery s). 0 \<le> battery s ! i \<and> battery s ! i \<le> capacity"
    using follows_battery_bounds [OF s(2) t assms(2,3,1) _ s(3)] len by simp
  have ut: "\<forall>i<length (utilization s). 0 \<le> utilization s ! i \<and> utilization s ! i \<le> 1"
    using follows_utilization_bounds [OF s(2) t assms(2,3,1) _ s(3)] len by simp
  let ?bu = "real (length (filter (\<lambda>b. b > 0) (butlast (battery s)))) / real ?n"
  let ?ls = "?t * sum_list (utilization s) / 8760"
  have up: "uptime capacity load sol = Inr (capacity, load, ?bu, ?ls)"
    using uptime_of_trajectories [OF s(1) _ False] len by simp
  have "length (filter (\<lambda>b. b > 0) (butlast (battery s))) \<le> ?n"
    using length_filter_le [of "\<lambda>b. b > 0" "butlast (battery s)"] len by simp
  then have bu: "0 \<le> ?bu \<and> ?bu \<le> 1" using False by simp
  have "utilization s \<noteq> []" using len False by auto
  from served_fraction_bounds [OF this ut] have ls: "0 \<le> ?ls \<and> ?ls \<le> 1"
    using len by simp
  show ?thesis using False s(1,3) len bat ut up bu ls by blast
qed

lemma follows_no_battery:
  assumes "follows 0 load t sol k s" "0 < t" "0 < load" "battery s ! 0 = 0"
  shows "i \<le> k \<Longrightarrow> battery s ! i = 0"
proof (induction i)
  case 0
  then show ?case using assms by simp
next
  case (Suc i)
  then have ih: "battery s ! i = 0" and ik: "i < k" by simp_all
  have "dispatch 0 load t (battery s ! i) (sol ! i) = Inr (utilization s ! i, battery s ! Suc i)"
    using assms(1) ik by (simp add: follows_def)
  then show ?case using dispatch_no_battery [OF assms(2,3), of "sol ! i"] ih by simp
qed

lemma follows_no_battery_utilization:
  assumes "follows 0 load t sol k s" "0 < t" "0 < load" "battery s ! 0 = 0" "i < k"
  shows "utilization s ! i = min (sol ! i / load) 1"
proof -
  have "battery s ! i = 0" using follows_no_battery [OF assms(1-4), of i] assms(5) by simp
  moreover have "dispatch 0 load t (battery s ! i) (sol ! i) = Inr (utilization s ! i, battery s ! Suc i)"
    using assms(1,5) by (simp add: follows_def)
  ultimately show ?thesis using dispatch_no_battery [OF assms(2,3), of "sol ! i"] by simp
qed

lemma sum_list_all_zero:
  fixes xs :: "real list"
  assumes "\<forall>i<length xs. xs ! i = 0"
  shows "sum_list xs = 0"
proof -
  have "sum_list xs = (\<Sum>i = 0..<length xs. xs ! i)" by (rule sum_list_sum_nth)
  also have "\<dots> = 0" using assms by simp
  finally show ?thesis .
qed

text \<open>
  In exact arithmetic, with capacity 0 the utilization of interval \<open>i\<close> is
  \<open>min (sol[i] / load) 1\<close>.
\<close>

lemma uptime_without_battery:
  assumes "\<forall>x\<in>set sol. 0 \<le> x" "0 < load"
  shows "(sol = [] \<longrightarrow> uptime 0 load sol = Inl ZeroDivisionError) \<and>
         (sol \<noteq> [] \<longrightarrow>
            (\<exists>t s battery_uptime load_served.
               uptime_trajectories 0 load sol = Inr (t, s) \<and>
               length (utilization s) = length sol \<and>
               (\<forall>i<length sol. utilization s ! i = min (sol ! i / load) 1) \<and>
               uptime 0 load sol = Inr (0, load, battery_uptime, load_served) \<and>
               ((\<forall>x\<in>set sol. x = 0) \<longrightarrow> load_served = 0)))"
proof (cases "sol = []")
  case True
  then show ?thesis by (simp add: uptime_empty)
next
  case False
  let ?n = "length sol"
  let ?t = "8760 / real ?n"
  have t: "0 < ?t" using False by simp
  from uptime_trajectories_follows [OF False, of load 0] assms(2)
  obtain s where s: "uptime_trajectories 0 load sol = Inr (?t, s)"
    "follows 0 load ?t sol ?n s" "battery s ! 0 = 0"
    by auto
  have len: "length (battery s) = Suc ?n" "length (utilization s) = ?n"
    using s(2) by (simp_all add: follows_def)
  have ut: "\<forall>i<?n. utilization s ! i = min (sol ! i / load) 1"
    using follows_no_battery_utilization [OF s(2) t assms(2) s(3)] by simp
  let ?bu = "real (length (filter (\<lambda>b. b > 0) (butlast (battery s)))) / real ?n"
  let ?ls = "?t * sum_list (utilization s) / 8760"
  have up: "uptime 0 load sol = Inr (0, load, ?bu, ?ls)"
    using uptime_of_trajectories [OF s(1) len(1) False] .
  have zero: "?ls = 0" if "\<forall>x\<in>set sol. x = 0"
  proof -
    have "\<forall>i<?n. sol ! i = 0" using that by simp
    then have "\<forall>i<length (utilization s). utilization s ! i = 0"
      using ut len by simp
    then have "sum_list (utilization s) = 0" by (rule sum_list_all_zero)
    then show ?thesis by simp
  qed
  show ?thesis using False s(1) len(2) ut up zero by blast
qed

lemma follows_mono:
  assumes "follows c1 load t sol k s1" "follows c2 load t sol k s2" "0 < t" "0 < load"
    and "c1 \<le> c2" "battery s1 ! 0 \<le> battery s2 ! 0"
  shows "i \<le> k \<Longrightarrow> battery s1 ! i \<le> battery s2 ! i"
proof (induction i)
  case 0
  then show ?case using assms by simp
next
  case (Suc i)
  then have ih: "battery s1 ! i \<le> battery s2 ! i" and ik: "i < k" by simp_all
  have d1: "dispatch c1 load t (battery s1 ! i) (sol ! i) = Inr (utilization s1 ! i, battery s1 ! Suc i)"
    using assms(1) ik by (simp add: follows_def)
  have d2: "dispatch c2 load t (battery s2 ! i) (sol ! i) = Inr (utilization s2 ! i, battery s2 ! Suc i)"
    using assms(2) ik by (simp add: follows_def)
  from dispatch_mono [OF assms(3,4) ih assms(5) d1 d2] show ?case by simp
qed

lemma follows_mono_utilization:
  assumes "follows c1 load t sol k s1" "follows c2 load t sol k s2" "0 < t" "0 < load"
    and "c1 \<le> c2" "battery s1 ! 0 \<le> battery s2 ! 0" "i < k"
  shows "utilization s1 ! i \<le> utilization s2 ! i"
proof -
  have b: "battery s1 ! i \<le> battery s2 ! i"
    using follows_mono [OF assms(1-6), of i] assms(7) by simp
  have d1: "dispatch c1 load t (battery s1 ! i) (sol ! i) = Inr (utilization s1 ! i, battery s1 ! Suc i)"
    using assms(1,7) by (simp add: follows_def)
  have d2: "dispatch c2 load t (battery s2 ! i) (sol ! i) = Inr (utilization s2 ! i, battery s2 ! Suc i)"
    using assms(2,7) by (simp add: follows_def)
  from dispatch_mono [OF assms(3,4) b assms(5) d1 d2] show ?thesis by simp
qed

text \<open>
  In exact arithmetic both lists and the load-served fraction are monotone in the
  capacity.
\<close>

lemma uptime_monotone_in_capacity:
  assumes "\<forall>x\<in>set sol. 0 \<le> x" "0 < load" "0 \<le> c1" "c1 \<le> c2"
  shows "(sol = [] \<longrightarrow> uptime c1 load sol = Inl ZeroDivisionError
                     \<and> uptime c2 load sol = Inl ZeroDivisionError) \<and>
         (sol \<noteq> [] \<longrightarrow>
            (\<exists>t s1 s2 battery_uptime1 load_served1 battery_uptime2 load_served2.
               uptime_trajectories c1 load sol = Inr (t, s1) \<and>
               uptime_trajectories c2 load sol = Inr (t, s2) \<and>
               length (battery s1) = length sol + 1 \<and> length (battery s2) = length sol + 1 \<and>
               length (utilization s1) = length sol \<and> length (utilization s2) = length sol \<and>
               (\<forall>i<length sol + 1. battery s1 ! i \<le> battery s2 ! i) \<and>
               (\<forall>i<length sol. utilization s1 ! i \<le> utilization s2 ! i) \<and>
               uptime c1 load sol = Inr (c1, load, battery_uptime1, load_served1) \<and>
               uptime c2 load sol = Inr (c2, load, battery_uptime2, load_served2) \<and>
               load_served1 \<le> load_served2))"
proof (cases "sol = []")
  case True
  then show ?thesis by (simp add: uptime_empty)
next
  case False
  let ?n = "length sol"
  let ?t = "8760 / real ?n"
  have t: "0 < ?t" using False by simp
  from uptime_trajectories_follows [OF False, of load c1] assms(2)
  obtain s1 where s1: "uptime_trajectories c1 load sol = Inr (?t, s1)"
    "follows c1 load ?t sol ?n s1" "battery s1 ! 0 = c1"
    by auto
  from uptime_trajectories_follows [OF False, of load c2] assms(2)
  obtain s2 where s2: "uptime_trajectories c2 load sol = Inr (?t, s2)"
    "follows c2 load ?t sol ?n s2" "battery s2 ! 0 = c2"
    by auto
  have len: "length (battery s1) = ?n + 1" "length (battery s2) = ?n + 1"
    "length (utilization s1) = ?n" "length (utilization s2) = ?n"
    using s1(2) s2(2) by (simp_all add: follows_def)
  have b0: "battery s1 ! 0 \<le> battery s2 ! 0" using s1(3) s2(3) assms(4) by simp
  have bat: "\<forall>i<?n + 1. battery s1 ! i \<le> battery s2 ! i"
    using follows_mono [OF s1(2) s2(2) t assms(2,4) b0] by simp
  have ut: "\<forall>i<?n. utilization s1 ! i \<le> utilization s2 ! i"
    using follows_mono_utilization [OF s1(2) s2(2) t assms(2,4) b0] by simp
  have sums: "sum_list (utilization s1) \<le> sum_list (utilization s2)"
    using ut len by (intro sum_list_mono2) simp_all
  let ?bu1 = "real (length (filter (\<lambda>b. b > 0) (butlast (battery s1)))) / real ?n"
  let ?bu2 = "real (length (filter (\<lambda>b. b > 0) (butlast (battery s2)))) / real ?n"
  let ?ls1 = "?t * sum_list (utilization s1) / 8760"
  let ?ls2 = "?t * sum_list (utilization s2) / 8760"
  have up1: "uptime c1 load sol = Inr (c1, load, ?bu1, ?ls1)"
    using uptime_of_trajectories [OF s1(1) _ False] len by simp
  have up2: "uptime c2 load sol = Inr (c2, load, ?bu2, ?ls2)"
    using uptime_of_trajectories [OF s2(1) _ False] len by simp
  have "?t * sum_list (utilization s1) \<le> ?t * sum_list (utilization s2)"
    using sums t by (intro mult_left_mono) simp_all
  then have ls: "?ls1 \<le> ?ls2" by (simp add: divide_right_mono)
  show ?thesis using False s1(1) s2(1) len bat ut up1 up2 ls by blast
qed

lemma uptime_loop_invariant:
  assumes "I 0 s0"
    and "\<And>i s. i < k \<Longrightarrow> I i s \<Longrightarrow>
           \<exists>s'. interval_step capacity load t sol i s = Inr s' \<and> I (Suc i) s'"
  shows "\<exists>s. uptime_loop capacity load t sol [0..<k] s0 = Inr s \<and> I k s"
  using assms(2)
proof (induction k)
  case 0
  then show ?case using assms(1) by simp
next
  case (Suc k)
  have "\<exists>s. uptime_loop capacity load t sol [0..<k] s0 = Inr s \<and> I k s"
    using Suc.IH Suc.prems by simp
  then obtain s where s: "uptime_loop capacity load t sol [0..<k] s0 = Inr s" "I k s"
    by blast
  obtain s' where s': "interval_step capacity load t sol k s = Inr s'" "I (Suc k) s'"
    using Suc.prems [of k s] s(2) by auto
  have "uptime_loop capacity load t sol [0..<Suc k] s0 = Inr s'"
    by (simp add: uptime_loop_append s(1) s'(1))
  with s'(2) show ?case by blast
qed

lemma held_step:
  assumes "held b (length sol) i s" "i < length sol" "sol ! i = load"
    and "dispatch capacity load t b load = Inr (1, b)"
  shows "\<exists>s'. interval_step capacity load t sol i s = Inr s' \<and> held b (length sol) (Suc i) s'"
proof -
  let ?s' = "\<lparr>battery = (battery s)[i + 1 := b], utilization = (utilization s)[i := 1]\<rparr>"
  have bi: "battery s ! i = b" using assms(1) by (simp add: held_def)
  have "interval_step capacity load t sol i s = Inr ?s'"
    by (simp add: interval_step_dispatch bi assms(3,4))
  moreover have "Suc i < length (battery s)" "i < length (utilization s)"
    using assms(1,2) by (simp_all add: held_def)
  then have "held b (length sol) (Suc i) ?s'"
    using assms(1) by (auto simp: held_def nth_list_update less_Suc_eq le_Suc_eq)
  ultimately show ?thesis by blast
qed

lemma uptime_trajectories_held:
  assumes "sol \<noteq> []" "\<forall>x\<in>set sol. x = load"
    and "dispatch capacity load (8760 / real (length sol)) capacity load = Inr (1, capacity)"
  shows "\<exists>s. uptime_trajectories capacity load sol = Inr (8760 / real (length sol), s)
              \<and> held capacity (length sol) (length sol) s"
proof -
  let ?n = "length sol"
  let ?t = "8760 / real ?n"
  let ?s0 = "\<lparr>battery = [capacity] @ map (\<lambda>_. 0) sol, utilization = map (\<lambda>_. 0) sol\<rparr>"
  have init: "held capacity ?n 0 ?s0" by (simp add: held_def)
  have step: "\<exists>s'. interval_step capacity load ?t sol i s = Inr s' \<and> held capacity ?n (Suc i) s'"
    if "i < ?n" "held capacity ?n i s" for i s
    using held_step [OF that(2,1) _ assms(3)] assms(2) that(1) by simp
  from uptime_loop_invariant [of "held capacity ?n" ?s0 ?n capacity load ?t sol, OF init step]
  obtain s where s: "uptime_loop capacity load ?t sol [0..<?n] ?s0 = Inr s" "held capacity ?n ?n s"
    by blast
  have "real ?n \<noteq> 0" using assms(1) by simp
  then have "uptime_trajectories capacity load sol = Inr (?t, s)"
    using s(1) by (simp add: uptime_trajectories_def py_truediv_def)
  with s(2) show ?thesis by blast
qed

lemma sum_list_all_one:
  fixes xs :: "real list"
  assumes "\<forall>i<length xs. xs ! i = 1"
  shows "sum_list xs = real (length xs)"
proof -
  have "sum_list xs = (\<Sum>i = 0..<length xs. xs ! i)" by (rule sum_list_sum_nth)
  also have "\<dots> = (\<Sum>i = 0..<length xs. 1)" using assms by simp
  finally show ?thesis by simp
qed

lemma held_butlast:
  assumes "held b n n s"
  shows "butlast (battery s) = replicate n b"
proof (rule nth_equalityI)
  show "length (butlast (battery s)) = length (replicate n b)"
    using assms by (simp add: held_def)
next
  fix i assume "i < length (butlast (battery s))"
  then show "butlast (battery s) ! i = replicate n b ! i"
    using assms by (simp add: held_def nth_butlast)
qed

lemma uptime_held:
  assumes "sol \<noteq> []" "uptime_trajectories capacity load sol = Inr (8760 / real (length sol), s)"
    and "held b (length sol) (length sol) s"
  shows "uptime capacity load sol = Inr (capacity, load, if 0 < b then 1 else 0, 1)"
proof -
  let ?n = "length sol"
  have len: "length (battery s) = Suc ?n" "length (utilization s) = ?n"
    using assms(3) by (simp_all add: held_def)
  have "\<forall>i<length (utilization s). utilization s ! i = 1"
    using assms(3) by (simp add: held_def)
  then have sum: "sum_list (utilization s) = real ?n"
    using sum_list_all_one [of "utilization s"] len by simp
  have n: "real ?n \<noteq> 0" using assms(1) by simp
  have bl: "butlast (battery s) = replicate ?n b" using held_butlast [OF assms(3)] .
  have "uptime capacity load sol =
          Inr (capacity, load,
               real (length (filter (\<lambda>b. b > 0) (butlast (battery s)))) / real ?n,
               8760 / real ?n * sum_list (utilization s) / 8760)"
    using uptime_of_trajectories [OF assms(2) len(1) assms(1)] .
  then show ?thesis using n by (simp add: sum bl)
qed

lemma uptime_raises_at_first_interval:
  assumes "sol \<noteq> []" "dispatch capacity load (8760 / real (length sol)) capacity (sol ! 0) = Inl e"
  shows "uptime capacity load sol = Inl e"
proof -
  have n: "real (length sol) \<noteq> 0" "0 < length sol" using assms(1) by simp_all
  have upt: "[0..<length sol] = 0 # [1..<length sol]" using n(2) by (simp add: upt_conv_Cons)
  show ?thesis
    using n(1) assms(2)
    by (simp add: uptime_def uptime_trajectories_def py_truediv_def upt
        interval_step_dispatch)
qed

text \<open>
  In exact arithmetic a series that equals the load is served in full: the load-served
  fraction is 1.
\<close>

lemma uptime_constant_at_load:
  assumes "sol \<noteq> []" "\<forall>x\<in>set sol. x = load"
  shows "(0 < capacity \<longrightarrow> uptime capacity load sol = Inr (capacity, load, 1, 1)) \<and>
         (capacity = 0 \<and> load \<noteq> 0 \<longrightarrow> uptime capacity load sol = Inr (capacity, load, 0, 1)) \<and>
         (capacity = 0 \<and> load = 0 \<longrightarrow> uptime capacity load sol = Inl ZeroDivisionError)"
proof (intro conjI impI)
  let ?t = "8760 / real (length sol)"
  have t: "?t \<noteq> 0" using assms(1) by simp
  {
    assume pos: "0 < capacity"
    have "dispatch capacity load ?t capacity load = Inr (1, capacity)"
      using pos by (rule dispatch_balanced_charged)
    from uptime_trajectories_held [OF assms this] obtain s where
      "uptime_trajectories capacity load sol = Inr (?t, s)" "held capacity (length sol) (length sol) s"
      by blast
    from uptime_held [OF assms(1) this] pos
    show "uptime capacity load sol = Inr (capacity, load, 1, 1)" by simp
  next
    assume h: "capacity = 0 \<and> load \<noteq> 0"
    then have "load * ?t \<noteq> 0" using t by simp
    then have "dispatch capacity load ?t capacity load = Inr (1, capacity)"
      using h dispatch_balanced_empty [of load ?t capacity] by simp
    from uptime_trajectories_held [OF assms this] obtain s where
      "uptime_trajectories capacity load sol = Inr (?t, s)" "held capacity (length sol) (length sol) s"
      by blast
    from uptime_held [OF assms(1) this] h
    show "uptime capacity load sol = Inr (capacity, load, 0, 1)" by simp
  next
    assume h: "capacity = 0 \<and> load = 0"
    have "sol ! 0 = load" using assms by (cases sol) simp_all
    then have "dispatch capacity load ?t capacity (sol ! 0) = Inl ZeroDivisionError"
      using h by (simp add: dispatch_def py_truediv_def)
    from uptime_raises_at_first_interval [OF assms(1) this]
    show "uptime capacity load sol = Inl ZeroDivisionError" .
  }
qed

section \<open>Claims about the cost functions\<close>

lemma uptime_echoes_arguments:
  "uptime capacity load sol = Inr (c, l, battery_uptime, load_served) \<Longrightarrow> c = capacity \<and> l = load"
  by (auto simp: uptime_def Let_def split: sum.splits prod.splits)


lemma all_in_system_cost_unfold:
  assumes "array_size \<noteq> 0"
    and "uptime (battery_size / array_size) (1 / array_size) sol
           = Inr (battery_size / array_size, 1 / array_size, battery_uptime, load_served)"
  shows "all_in_system_cost solar_cost battery_cost load_cost battery_size array_size sol =
           py_truediv (battery_size / array_size * battery_cost + solar_cost
                         + load_cost * (1 / array_size))
                      (1 / array_size * load_served)"
  using assms by (simp add: all_in_system_cost_def py_truediv_def)




text \<open>
  Claim C5, as amended. \<open>cost_and_elasticity\<close> returns exactly when its three calls of
  \<open>all_in_system_cost\<close> return and the base cost is not zero. The tuple it returns then
  holds the cost at the given sizes, the cost at \<open>(1.01 * battery_size + 0.01, array_size)\<close>,
  the cost at \<open>(battery_size, 1.01 * array_size + 0.01)\<close>, and the two elasticities
  \<open>(cost - perturbed) / cost\<close>. In every other case it raises.
\<close>

theorem cost_and_elasticity_returns:
  "cost_and_elasticity solar_cost battery_cost load_cost battery_size array_size sol
     = Inr (cost, cost_battery, cost_array, dcost_battery, dcost_array) \<longleftrightarrow>
   all_in_system_cost solar_cost battery_cost load_cost battery_size array_size sol = Inr cost \<and>
   all_in_system_cost solar_cost battery_cost load_cost (1.01 * battery_size + 0.01) array_size sol
     = Inr cost_battery \<and>
   all_in_system_cost solar_cost battery_cost load_cost battery_size (1.01 * array_size + 0.01) sol
     = Inr cost_array \<and>
   cost \<noteq> 0 \<and>
   dcost_battery = (cost - cost_battery) / cost \<and>
   dcost_array = (cost - cost_array) / cost"
  by (auto simp: cost_and_elasticity_def py_truediv_def split: sum.splits)

lemma cost_example:
  "all_in_system_cost 1 1 1 1 1 [1] = Inr 3"
  "all_in_system_cost 1 1 1 (1.01 * 1 + 0.01) 1 [1] = Inr (151 / 50)"
  "all_in_system_cost 1 1 1 1 (1.01 * 1 + 0.01) [1] = Inr (151 / 50)"
  by (simp_all add: all_in_system_cost_def uptime_def uptime_trajectories_def interval_step_def
      py_truediv_def)

theorem cost_and_elasticity_returns_witness:
  "cost_and_elasticity 1 1 1 1 1 [1] = Inr (3, 151 / 50, 151 / 50, - (1 / 150), - (1 / 150))"
  using cost_and_elasticity_returns
    [of 1 1 1 1 1 "[1]" 3 "151 / 50" "151 / 50" "- (1 / 150)" "- (1 / 150)"] cost_example
  by simp

text \<open>
  The claim as first stated, for every input, fails when all unit costs are zero: the base
  cost is the value 0 and the elasticities divide by it.
\<close>

theorem cost_and_elasticity_raises:
  "all_in_system_cost 0 0 0 0 1 [1] = Inr 0 \<and>
   cost_and_elasticity 0 0 0 0 1 [1] = Inl ZeroDivisionError"
  by (simp add: cost_and_elasticity_def all_in_system_cost_def uptime_def uptime_trajectories_def
      interval_step_def py_truediv_def)

section \<open>Claims about \<open>find_minimum_system_cost\<close>\<close>

lemma all_in_system_cost_value:
  assumes "all_in_system_cost solar_cost battery_cost load_cost battery_size array_size sol = Inr c"
  shows "array_size \<noteq> 0 \<and>
         (\<exists>battery_uptime load_served.
            uptime (battery_size / array_size) (1 / array_size) sol
              = Inr (battery_size / array_size, 1 / array_size, battery_uptime, load_served) \<and>
            load_served \<noteq> 0 \<and>
            c = (solar_cost * array_size + battery_cost * battery_size + load_cost) / load_served)"
proof -
  have a: "array_size \<noteq> 0"
    using assms by (auto simp: all_in_system_cost_def py_truediv_def split: if_splits)
  obtain cap l bu ls where up: "uptime (battery_size / array_size) (1 / array_size) sol = Inr (cap, l, bu, ls)"
    using assms a by (auto simp: all_in_system_cost_def py_truediv_def split: sum.splits)
  from uptime_echoes_arguments [OF up] have eq: "cap = battery_size / array_size" "l = 1 / array_size"
    by simp_all
  have up': "uptime (battery_size / array_size) (1 / array_size) sol
              = Inr (battery_size / array_size, 1 / array_size, bu, ls)"
    using up eq by simp
  have d: "py_truediv (battery_size / array_size * battery_cost + solar_cost
                         + load_cost * (1 / array_size)) (1 / array_size * ls) = Inr c"
    using all_in_system_cost_unfold [OF a up', of solar_cost battery_cost load_cost] assms by simp
  then have ls: "ls \<noteq> 0" by (auto simp: py_truediv_def split: if_splits)
  have "c = (battery_size / array_size * battery_cost + solar_cost
                         + load_cost * (1 / array_size)) / (1 / array_size * ls)"
    using d a ls by (simp add: py_truediv_def)
  also have "\<dots> = (solar_cost * array_size + battery_cost * battery_size + load_cost) / ls"
    using a ls by (simp add: field_simps)
  finally show ?thesis using a up' ls by blast
qed

lemma search_iteration_result:
  assumes "search_iteration solar_cost battery_cost load_cost sol amplitude uniform i st = Inr st'"
  shows "\<exists>cost. all_in_system_cost solar_cost battery_cost load_cost (bi st) (ai st) sol = Inr cost \<and>
           (if cost < cost_min st
            then ai_min st' = ai st \<and> bi_min st' = bi st \<and> cost_min st' = cost
            else ai_min st' = ai_min st \<and> bi_min st' = bi_min st \<and> cost_min st' = cost_min st) \<and>
           0 \<le> bi st' \<and> 0.01 \<le> ai st'"
proof -
  obtain cost cb ca db da where ce:
    "cost_and_elasticity solar_cost battery_cost load_cost (bi st) (ai st) sol = Inr (cost, cb, ca, db, da)"
    using assms by (auto simp: search_iteration_def split: sum.splits)
  then have c: "all_in_system_cost solar_cost battery_cost load_cost (bi st) (ai st) sol = Inr cost"
    by (auto simp: cost_and_elasticity_def split: sum.splits)
  let ?st1 = "if cost < cost_min st
              then st\<lparr>ai_min := ai st, bi_min := bi st, cost_min := cost\<rparr> else st"
  have st': "st' = ?st1\<lparr>bi := max 0 (bi ?st1 + amplitude * uniform (2 * i) * db),
                         ai := max 0.01 (ai ?st1 + amplitude * uniform (2 * i + 1) * da)\<rparr>"
    using assms ce by (simp add: search_iteration_def Let_def)
  have best: "if cost < cost_min st
            then ai_min st' = ai st \<and> bi_min st' = bi st \<and> cost_min st' = cost
            else ai_min st' = ai_min st \<and> bi_min st' = bi_min st \<and> cost_min st' = cost_min st"
    unfolding st' by simp
  have "bi st' = max 0 (bi ?st1 + amplitude * uniform (2 * i) * db)"
    "ai st' = max 0.01 (ai ?st1 + amplitude * uniform (2 * i + 1) * da)"
    unfolding st' by simp_all
  then have "0 \<le> bi st'" "0.01 \<le> ai st'"
    by (simp_all only: max.cobounded1)
  with c best show ?thesis by blast
qed

lemma search_iteration_tracked:
  assumes "tracked solar_cost battery_cost load_cost sol c0 st"
    and "search_iteration solar_cost battery_cost load_cost sol amplitude uniform i st = Inr st'"
  shows "tracked solar_cost battery_cost load_cost sol c0 st'"
proof -
  from assms(1) obtain c where c:
    "all_in_system_cost solar_cost battery_cost load_cost (bi_min st) (ai_min st) sol = Inr c"
    "c \<le> c0" "cost_min st \<le> c"
    by (auto simp: tracked_def)
  from search_iteration_result [OF assms(2)] obtain cost where cost:
    "all_in_system_cost solar_cost battery_cost load_cost (bi st) (ai st) sol = Inr cost"
    "if cost < cost_min st
     then ai_min st' = ai st \<and> bi_min st' = bi st \<and> cost_min st' = cost
     else ai_min st' = ai_min st \<and> bi_min st' = bi_min st \<and> cost_min st' = cost_min st"
    by blast
  show ?thesis
  proof (cases "cost < cost_min st")
    case True
    then have "ai_min st' = ai st" "bi_min st' = bi st" "cost_min st' = cost" using cost(2) by simp_all
    moreover have "cost \<le> c0" using True c by simp
    ultimately show ?thesis using cost(1) by (auto simp: tracked_def)
  next
    case False
    then have "ai_min st' = ai_min st" "bi_min st' = bi_min st" "cost_min st' = cost_min st"
      using cost(2) by simp_all
    then show ?thesis using c by (auto simp: tracked_def)
  qed
qed

lemma search_loop_tracked:
  assumes "tracked solar_cost battery_cost load_cost sol c0 st"
    and "search_loop solar_cost battery_cost load_cost sol amplitude uniform is st = Inr st'"
  shows "tracked solar_cost battery_cost load_cost sol c0 st'"
  using assms
proof (induction "is" arbitrary: st)
  case Nil
  then show ?case by simp
next
  case (Cons i "is")
  from Cons.prems(2) obtain st1 where st1:
    "search_iteration solar_cost battery_cost load_cost sol amplitude uniform i st = Inr st1"
    "search_loop solar_cost battery_cost load_cost sol amplitude uniform is st1 = Inr st'"
    by (auto split: sum.splits)
  from search_iteration_tracked [OF Cons.prems(1) st1(1)] Cons.IH st1(2) show ?case by blast
qed

lemma first_iteration_tracked:
  assumes "search_iteration solar_cost battery_cost load_cost sol amplitude uniform i
             (initial_state load_cost) = Inr st'"
  shows "\<exists>c0. all_in_system_cost solar_cost battery_cost load_cost
                 (initial_size load_cost) (initial_size load_cost) sol = Inr c0
              \<and> tracked solar_cost battery_cost load_cost sol c0 st'"
proof -
  from search_iteration_result [OF assms] obtain c0 where c0:
    "all_in_system_cost solar_cost battery_cost load_cost
       (initial_size load_cost) (initial_size load_cost) sol = Inr c0"
    "if c0 < 10 ^ 10
     then ai_min st' = initial_size load_cost \<and> bi_min st' = initial_size load_cost \<and> cost_min st' = c0
     else ai_min st' = initial_size load_cost \<and> bi_min st' = initial_size load_cost
          \<and> cost_min st' = 10 ^ 10"
    by (auto simp: initial_state_def)
  have "tracked solar_cost battery_cost load_cost sol c0 st'"
    using c0 by (cases "c0 < 10 ^ 10") (auto simp: tracked_def)
  with c0(1) show ?thesis by blast
qed

lemma search_tracked:
  assumes "search_loop solar_cost battery_cost load_cost sol amplitude uniform [0..<100]
             (initial_state load_cost) = Inr st"
  shows "\<exists>c0. all_in_system_cost solar_cost battery_cost load_cost
                 (initial_size load_cost) (initial_size load_cost) sol = Inr c0
              \<and> tracked solar_cost battery_cost load_cost sol c0 st"
proof -
  have upt: "[0..<100] = 0 # [1..<100]" by (simp add: upt_conv_Cons)
  from assms obtain st1 where st1:
    "search_iteration solar_cost battery_cost load_cost sol amplitude uniform 0
       (initial_state load_cost) = Inr st1"
    "search_loop solar_cost battery_cost load_cost sol amplitude uniform [1..<100] st1 = Inr st"
    unfolding upt by (auto split: sum.splits)
  from first_iteration_tracked [OF st1(1)] obtain c0 where c0:
    "all_in_system_cost solar_cost battery_cost load_cost
       (initial_size load_cost) (initial_size load_cost) sol = Inr c0"
    "tracked solar_cost battery_cost load_cost sol c0 st1"
    by blast
  from search_loop_tracked [OF c0(2) st1(2)] c0(1) show ?thesis by blast
qed

lemma report_of_tracked:
  assumes "search_loop solar_cost battery_cost load_cost sol (step_amplitude load_cost) uniform
             [0..<100] (initial_state load_cost) = Inr st"
    and "all_in_system_cost solar_cost battery_cost load_cost (bi_min st) (ai_min st) sol = Inr c"
  shows "\<exists>battery_uptime load_served.
           ai_min st \<noteq> 0 \<and>
           uptime (bi_min st / ai_min st) (1 / ai_min st) sol
             = Inr (bi_min st / ai_min st, 1 / ai_min st, battery_uptime, load_served) \<and>
           load_served \<noteq> 0 \<and>
           c = (solar_cost * ai_min st + battery_cost * bi_min st + load_cost) / load_served \<and>
           find_minimum_system_cost solar_cost battery_cost load_cost sol uniform =
             Inr ((solar_cost, battery_cost, load_cost),
                  (ai_min st, bi_min st, 1),
                  (solar_cost * ai_min st, battery_cost * bi_min st, load_cost),
                  (solar_cost * ai_min st + battery_cost * bi_min st,
                   solar_cost * ai_min st + battery_cost * bi_min st + load_cost,
                   (solar_cost * ai_min st + battery_cost * bi_min st + load_cost) / load_served),
                  (bi_min st / ai_min st, 1 / ai_min st, battery_uptime, load_served))"
proof -
  from all_in_system_cost_value [OF assms(2)] obtain bu ls where v:
    "ai_min st \<noteq> 0"
    "uptime (bi_min st / ai_min st) (1 / ai_min st) sol
       = Inr (bi_min st / ai_min st, 1 / ai_min st, bu, ls)"
    "ls \<noteq> 0"
    "c = (solar_cost * ai_min st + battery_cost * bi_min st + load_cost) / ls"
    by blast
  have "find_minimum_system_cost solar_cost battery_cost load_cost sol uniform =
             Inr ((solar_cost, battery_cost, load_cost),
                  (ai_min st, bi_min st, 1),
                  (solar_cost * ai_min st, battery_cost * bi_min st, load_cost),
                  (solar_cost * ai_min st + battery_cost * bi_min st,
                   solar_cost * ai_min st + battery_cost * bi_min st + load_cost,
                   (solar_cost * ai_min st + battery_cost * bi_min st + load_cost) / ls),
                  (bi_min st / ai_min st, 1 / ai_min st, bu, ls))"
    using assms(1) v(1,2,3) by (simp add: find_minimum_system_cost_def py_truediv_def Let_def)
  with v show ?thesis by blast
qed


text \<open>
  In exact arithmetic the levelized cost in the returned totals is the cost of the best
  sizes, so it is at most the cost of the initial sizes too. In double precision the two
  are computed by different expressions and agree up to rounding only.
\<close>

lemma best_cost_no_worse_than_initial:
  assumes "find_minimum_system_cost solar_cost battery_cost load_cost sol uniform
             = Inr (inputs, sizes, costs, (subtotal, total_cost, levelized), ut)"
  shows "\<exists>c0 st.
           all_in_system_cost solar_cost battery_cost load_cost
             (initial_size load_cost) (initial_size load_cost) sol = Inr c0 \<and>
           search_loop solar_cost battery_cost load_cost sol (step_amplitude load_cost) uniform
             [0..<100] (initial_state load_cost) = Inr st \<and>
           cost_min st \<le> c0 \<and> levelized \<le> c0"
proof -
  obtain st where st:
    "search_loop solar_cost battery_cost load_cost sol (step_amplitude load_cost) uniform
       [0..<100] (initial_state load_cost) = Inr st"
    using assms by (auto simp: find_minimum_system_cost_def split: sum.splits)
  from search_tracked [OF st] obtain c0 c where c:
    "all_in_system_cost solar_cost battery_cost load_cost
       (initial_size load_cost) (initial_size load_cost) sol = Inr c0"
    "all_in_system_cost solar_cost battery_cost load_cost (bi_min st) (ai_min st) sol = Inr c"
    "c \<le> c0" "cost_min st \<le> c"
    by (auto simp: tracked_def)
  from report_of_tracked [OF st c(2)] assms
  have "levelized = c" by auto
  with c st show ?thesis by auto
qed

lemma search_updates_bounds:
  "st' \<in> set (search_updates solar_cost battery_cost load_cost sol amplitude uniform is st)
     \<Longrightarrow> 0 \<le> bi st' \<and> 0.01 \<le> ai st'"
proof (induction "is" arbitrary: st)
  case Nil
  then show ?case by simp
next
  case (Cons i "is")
  show ?case
  proof (cases "search_iteration solar_cost battery_cost load_cost sol amplitude uniform i st")
    case (Inl e)
    with Cons.prems show ?thesis by simp
  next
    case (Inr st1)
    from search_iteration_result [OF Inr] have b: "0 \<le> bi st1 \<and> 0.01 \<le> ai st1" by blast
    from Cons.prems Inr have
      "st' = st1 \<or> st' \<in> set (search_updates solar_cost battery_cost load_cost sol amplitude uniform is st1)"
      by simp
    with b Cons.IH show ?thesis by blast
  qed
qed

lemma search_updates_length:
  "length (search_updates solar_cost battery_cost load_cost sol amplitude uniform is st) \<le> length is"
  by (induction "is" arbitrary: st) (auto split: sum.splits)

lemma search_loop_updates:
  "search_loop solar_cost battery_cost load_cost sol amplitude uniform is st = Inr st' \<Longrightarrow>
     length (search_updates solar_cost battery_cost load_cost sol amplitude uniform is st) = length is
     \<and> last (st # search_updates solar_cost battery_cost load_cost sol amplitude uniform is st) = st'"
proof (induction "is" arbitrary: st)
  case Nil
  then show ?case by simp
next
  case (Cons i "is")
  from Cons.prems obtain st1 where st1:
    "search_iteration solar_cost battery_cost load_cost sol amplitude uniform i st = Inr st1"
    "search_loop solar_cost battery_cost load_cost sol amplitude uniform is st1 = Inr st'"
    by (auto split: sum.splits)
  from Cons.IH [OF st1(2)] have ih:
    "length (search_updates solar_cost battery_cost load_cost sol amplitude uniform is st1) = length is"
    "last (st1 # search_updates solar_cost battery_cost load_cost sol amplitude uniform is st1) = st'"
    by simp_all
  have "search_updates solar_cost battery_cost load_cost sol amplitude uniform (i # is) st
          = st1 # search_updates solar_cost battery_cost load_cost sol amplitude uniform is st1"
    using st1(1) by simp
  then show ?case using ih by simp
qed

lemma search_loop_raises_updates:
  "search_loop solar_cost battery_cost load_cost sol amplitude uniform is st = Inl e \<Longrightarrow>
     length (search_updates solar_cost battery_cost load_cost sol amplitude uniform is st) < length is"
  by (induction "is" arbitrary: st) (auto split: sum.splits)


text \<open>
  Claim C6. \<open>search_updates\<close> lists the state after each completed iteration of the loop
  over \<open>range(100)\<close>. After every update the candidate sizes satisfy \<open>bi \<ge> 0\<close> and
  \<open>ai \<ge> 0.01\<close>, so that the array size of every later cost evaluation is not zero. The
  loop never makes more than 100 updates; every call that returns has made exactly 100,
  and a loop that raises has made fewer.
\<close>

theorem search_loop_iterations:
  "(\<forall>st\<in>set (search_updates solar_cost battery_cost load_cost sol (step_amplitude load_cost)
                  uniform [0..<100] (initial_state load_cost)).
      0 \<le> bi st \<and> 0.01 \<le> ai st \<and> ai st \<noteq> 0) \<and>
   length (search_updates solar_cost battery_cost load_cost sol (step_amplitude load_cost)
             uniform [0..<100] (initial_state load_cost)) \<le> 100 \<and>
   (\<forall>r. find_minimum_system_cost solar_cost battery_cost load_cost sol uniform = Inr r \<longrightarrow>
      length (search_updates solar_cost battery_cost load_cost sol (step_amplitude load_cost)
                uniform [0..<100] (initial_state load_cost)) = 100) \<and>
   (\<forall>e. search_loop solar_cost battery_cost load_cost sol (step_amplitude load_cost)
           uniform [0..<100] (initial_state load_cost) = Inl e \<longrightarrow>
      length (search_updates solar_cost battery_cost load_cost sol (step_amplitude load_cost)
                uniform [0..<100] (initial_state load_cost)) < 100)"
proof (intro conjI ballI allI impI)
  let ?loop = "search_loop solar_cost battery_cost load_cost sol (step_amplitude load_cost)
                 uniform [0..<100] (initial_state load_cost)"
  let ?updates = "search_updates solar_cost battery_cost load_cost sol (step_amplitude load_cost)
                    uniform [0..<100] (initial_state load_cost)"
  {
    fix st assume "st \<in> set ?updates"
    from search_updates_bounds [OF this] show b: "0 \<le> bi st" "0.01 \<le> ai st" by simp_all
    from b(2) show "ai st \<noteq> 0" by auto
  next
    show "length ?updates \<le> 100"
      using search_updates_length [of solar_cost battery_cost load_cost sol
          "step_amplitude load_cost" uniform "[0..<100]" "initial_state load_cost"]
      by simp
  next
    fix r assume "find_minimum_system_cost solar_cost battery_cost load_cost sol uniform = Inr r"
    then obtain st where "?loop = Inr st"
      by (auto simp: find_minimum_system_cost_def split: sum.splits)
    from search_loop_updates [OF this] show "length ?updates = 100" by simp
  next
    fix e assume "?loop = Inl e"
    from search_loop_raises_updates [OF this] show "length ?updates < 100" by simp
  }
qed

text \<open>
  A run that returns: with solar and battery free of charge and one interval of full sun,
  every size costs the same, the elasticities are 0 and the search stays where it starts.
\<close>

lemma settled_cost:
  "cost_and_elasticity 0 0 5000000 10 10 [1] = Inr (5000000, 5000000, 5000000, 0, 0)"
  by (simp add: cost_and_elasticity_def all_in_system_cost_def uptime_def uptime_trajectories_def
      interval_step_def py_truediv_def)

lemma settled_first:
  "search_iteration 0 0 5000000 [1] amplitude uniform i (initial_state 5000000) = Inr settled"
  by (simp add: search_iteration_def initial_state_def initial_size_def settled_cost settled_def)

lemma settled_iteration:
  "search_iteration 0 0 5000000 [1] amplitude uniform i settled = Inr settled"
  by (simp add: search_iteration_def settled_cost settled_def)

lemma settled_loop:
  "search_loop 0 0 5000000 [1] amplitude uniform is settled = Inr settled"
  by (induction "is") (simp_all add: settled_iteration)

lemma settled_search:
  "search_loop 0 0 5000000 [1] amplitude uniform [0..<100] (initial_state 5000000) = Inr settled"
proof -
  have "[0..<100] = 0 # [1..<100]" by (simp add: upt_conv_Cons)
  then show ?thesis by (simp add: settled_first settled_loop)
qed

lemma settled_uptime: "uptime 1 (1 / 10) [1] = Inr (1, 1 / 10, 1, 1)"
  by (simp add: uptime_def uptime_trajectories_def interval_step_def py_truediv_def)

lemma settled_report:
  "find_minimum_system_cost 0 0 5000000 [1] uniform =
     Inr ((0, 0, 5000000), (10, 10, 1), (0, 0, 5000000), (0, 5000000, 5000000), (1, 1 / 10, 1, 1))"
  by (simp add: find_minimum_system_cost_def settled_search settled_def py_truediv_def
      settled_uptime)

lemma settled_initial_cost:
  "all_in_system_cost 0 0 5000000 (initial_size 5000000) (initial_size 5000000) [1] = Inr 5000000"
  by (simp add: initial_size_def all_in_system_cost_def uptime_def uptime_trajectories_def
      interval_step_def py_truediv_def)




theorem search_loop_iterations_witness:
  "length (search_updates 0 0 5000000 [1] (step_amplitude 5000000) midpoint_draws [0..<100]
             (initial_state 5000000)) = 100 \<and>
   0 \<le> bi (search_updates 0 0 5000000 [1] (step_amplitude 5000000) midpoint_draws [0..<100]
             (initial_state 5000000) ! 99) \<and>
   0.01 \<le> ai (search_updates 0 0 5000000 [1] (step_amplitude 5000000) midpoint_draws [0..<100]
             (initial_state 5000000) ! 99)"
proof -
  let ?U = "search_updates 0 0 5000000 [1] (step_amplitude 5000000) midpoint_draws [0..<100]
             (initial_state 5000000)"
  from search_loop_iterations [of 0 0 5000000 "[1]" midpoint_draws]
  have all: "\<forall>st\<in>set ?U. 0 \<le> bi st \<and> 0.01 \<le> ai st \<and> ai st \<noteq> 0"
    and ret: "\<forall>r. find_minimum_system_cost 0 0 5000000 [1] midpoint_draws = Inr r
                \<longrightarrow> length ?U = 100"
    by blast+
  from ret settled_report [of midpoint_draws] have len: "length ?U = 100" by blast
  then have "?U ! 99 \<in> set ?U" by simp
  with all len show ?thesis by blast
qed

section \<open>Properties of the rounding\<close>

lemma round_half_even_of_int [simp]: "round_half_even (of_int m) = m"
  by (simp add: round_half_even_def)

lemma round_half_even_range:
  "round_half_even y = \<lfloor>y\<rfloor> \<or> round_half_even y = \<lfloor>y\<rfloor> + 1"
  by (simp add: round_half_even_def Let_def)

lemma round_half_even_mono:
  assumes "x \<le> y"
  shows "round_half_even x \<le> round_half_even y"
proof (cases "\<lfloor>x\<rfloor> = \<lfloor>y\<rfloor>")
  case True
  then have "x - of_int \<lfloor>x\<rfloor> \<le> y - of_int \<lfloor>y\<rfloor>" using assms by simp
  then show ?thesis using True by (auto simp: round_half_even_def Let_def)
next
  case False
  then have "\<lfloor>x\<rfloor> < \<lfloor>y\<rfloor>" using assms floor_mono [of x y] by linarith
  then show ?thesis
    using round_half_even_range [of x] round_half_even_range [of y] by linarith
qed

lemma round_half_even_uminus: "round_half_even (- y) = - round_half_even y"
proof (cases "y \<in> \<int>")
  case True
  then obtain m where "y = of_int m" by (auto elim: Ints_cases)
  then have "round_half_even (- y) = round_half_even (of_int (- m))" by simp
  also have "\<dots> = - m" by (rule round_half_even_of_int)
  finally show ?thesis using \<open>y = of_int m\<close> by simp
next
  case False
  then have "y \<noteq> of_int \<lfloor>y\<rfloor>" by (metis Ints_of_int)
  then have fl: "\<lfloor>- y\<rfloor> = - \<lfloor>y\<rfloor> - 1"
    by (simp add: ceiling_altdef floor_minus)
  define f where "f = \<lfloor>y\<rfloor>"
  define r where "r = y - of_int f"
  have r': "- y - of_int (- f - 1) = 1 - r" by (simp add: r_def)
  have ev: "even (- f - 1) \<longleftrightarrow> odd f" by simp
  show ?thesis
    unfolding round_half_even_def Let_def fl f_def [symmetric] r' r_def [symmetric]
    using ev by (auto simp: )
qed

lemma quantum_pos: "0 < quantum x"
  by (simp add: quantum_def)

lemma exponent64_uminus [simp]: "exponent64 (- x) = exponent64 x"
  by (simp add: exponent64_def)

lemma quantum_uminus [simp]: "quantum (- x) = quantum x"
  by (simp add: quantum_def)

lemma binary64_zero [simp]: "binary64 0 = 0"
  by (simp add: binary64_def)

lemma binary64_uminus: "binary64 (- x) = - binary64 x"
  by (simp add: binary64_def round_half_even_uminus)

lemma binary64_nonneg:
  assumes "0 \<le> x"
  shows "0 \<le> binary64 x"
proof -
  have "0 \<le> x / quantum x" using assms quantum_pos [of x] by simp
  from round_half_even_mono [OF this] have "0 \<le> round_half_even (x / quantum x)"
    using round_half_even_of_int [of 0] by simp
  then show ?thesis using quantum_pos [of x] by (simp add: binary64_def)
qed

lemma exponent64_mono:
  assumes "0 < x" "x \<le> y"
  shows "exponent64 x \<le> exponent64 y"
proof -
  have "log 2 x \<le> log 2 y" using assms by simp
  then have "\<lfloor>log 2 x\<rfloor> \<le> \<lfloor>log 2 y\<rfloor>" by (rule floor_mono)
  then show ?thesis using assms by (simp add: exponent64_def)
qed

lemma below_next_binade:
  assumes "0 < x"
  shows "x < 2 powr (of_int (exponent64 x) + 1)"
proof -
  have "x < 2 powr (of_int \<lfloor>log 2 x\<rfloor> + 1)"
    using floor_log_eq_powr_iff [of x 2 "\<lfloor>log 2 x\<rfloor>"] assms by simp
  also have "\<dots> \<le> 2 powr (of_int (exponent64 x) + 1)"
    using assms by (simp add: exponent64_def)
  finally show ?thesis .
qed

lemma above_binade:
  assumes "0 < x" "- 1022 \<le> \<lfloor>log 2 x\<rfloor>"
  shows "2 powr of_int (exponent64 x) \<le> x"
proof -
  have "exponent64 x = \<lfloor>log 2 x\<rfloor>" using assms by (simp add: exponent64_def)
  then show ?thesis
    using floor_log_eq_powr_iff [of x 2 "\<lfloor>log 2 x\<rfloor>"] assms by simp
qed

lemma binary64_upper:
  assumes "0 < x"
  shows "binary64 x \<le> 2 powr (of_int (exponent64 x) + 1)"
proof -
  have q: "0 < quantum x" by (rule quantum_pos)
  have split: "2 powr (of_int (exponent64 x) + 1) = 2 ^ 53 * quantum x"
  proof -
    have "of_int (exponent64 x) + (1::real) = 53 + (of_int (exponent64 x) - 52)" by simp
    then have "(2::real) powr (of_int (exponent64 x) + 1) = 2 powr (53 + (of_int (exponent64 x) - 52))"
      by (rule arg_cong)
    also have "\<dots> = 2 powr 53 * quantum x" unfolding quantum_def by (rule powr_add)
    finally show ?thesis by simp
  qed
  have "x / quantum x \<le> 2 ^ 53"
    using below_next_binade [OF assms] q unfolding split by (simp add: field_simps)
  then have "x / quantum x \<le> of_int (2 ^ 53)" by simp
  from round_half_even_mono [OF this] have "round_half_even (x / quantum x) \<le> 2 ^ 53"
    by (simp only: round_half_even_of_int)
  then have "of_int (round_half_even (x / quantum x)) \<le> (2 ^ 53 :: real)"
    by (metis of_int_le_iff of_int_numeral of_int_power)
  then have "of_int (round_half_even (x / quantum x)) * quantum x \<le> 2 ^ 53 * quantum x"
    using q by simp
  then show ?thesis using assms unfolding split by (simp add: binary64_def)
qed

lemma binary64_lower:
  assumes "0 < x" "- 1022 \<le> \<lfloor>log 2 x\<rfloor>"
  shows "2 powr of_int (exponent64 x) \<le> binary64 x"
proof -
  have q: "0 < quantum x" by (rule quantum_pos)
  have split: "2 powr of_int (exponent64 x) = 2 ^ 52 * quantum x"
  proof -
    have "of_int (exponent64 x) = (52::real) + (of_int (exponent64 x) - 52)" by simp
    then have "(2::real) powr of_int (exponent64 x) = 2 powr (52 + (of_int (exponent64 x) - 52))"
      by (rule arg_cong)
    also have "\<dots> = 2 powr 52 * quantum x" unfolding quantum_def by (rule powr_add)
    finally show ?thesis by simp
  qed
  have "2 ^ 52 \<le> x / quantum x"
    using above_binade [OF assms] q unfolding split by (simp add: field_simps)
  then have "of_int (2 ^ 52) \<le> x / quantum x" by simp
  from round_half_even_mono [OF this] have "2 ^ 52 \<le> round_half_even (x / quantum x)"
    by (simp only: round_half_even_of_int)
  then have "(2 ^ 52 :: real) \<le> of_int (round_half_even (x / quantum x))"
    by (metis of_int_le_iff of_int_numeral of_int_power)
  then have "2 ^ 52 * quantum x \<le> of_int (round_half_even (x / quantum x)) * quantum x"
    using q by simp
  then show ?thesis using assms unfolding split by (simp add: binary64_def)
qed

lemma binary64_mono_pos:
  assumes "0 < x" "x \<le> y"
  shows "binary64 x \<le> binary64 y"
proof (cases "exponent64 x = exponent64 y")
  case True
  then have q: "quantum x = quantum y" by (simp add: quantum_def)
  have "x / quantum y \<le> y / quantum y" using assms quantum_pos [of y] by (simp add: divide_right_mono)
  from round_half_even_mono [OF this]
  have "of_int (round_half_even (x / quantum y)) * quantum y
          \<le> of_int (round_half_even (y / quantum y)) * quantum y"
    using quantum_pos [of y] by simp
  then show ?thesis using assms q by (simp add: binary64_def)
next
  case False
  then have lt: "exponent64 x < exponent64 y" using exponent64_mono [OF assms] by simp
  have y: "0 < y" using assms by simp
  have "- 1022 \<le> exponent64 x" by (simp add: exponent64_def)
  moreover have "exponent64 y = max \<lfloor>log 2 y\<rfloor> (- 1022)" using y by (simp add: exponent64_def)
  ultimately have "- 1022 \<le> \<lfloor>log 2 y\<rfloor>" using lt by (simp add: max_def split: if_splits)
  from binary64_lower [OF y this] have low: "2 powr of_int (exponent64 y) \<le> binary64 y" .
  have "of_int (exponent64 x) + (1::real) \<le> of_int (exponent64 y)" using lt by linarith
  then have "2 powr (of_int (exponent64 x) + 1) \<le> (2::real) powr of_int (exponent64 y)"
    by simp
  with binary64_upper [OF assms(1)] low show ?thesis by linarith
qed

lemma binary64_mono:
  assumes "x \<le> y"
  shows "binary64 x \<le> binary64 y"
proof -
  consider "0 < x" | "x \<le> 0" "0 \<le> y" | "y < 0" by linarith
  then show ?thesis
  proof cases
    case 1
    then show ?thesis using assms by (rule binary64_mono_pos)
  next
    case 2
    have "0 \<le> binary64 (- x)" using 2(1) by (intro binary64_nonneg) simp
    then have "binary64 x \<le> 0" by (simp add: binary64_uminus)
    also have "0 \<le> binary64 y" using 2(2) by (rule binary64_nonneg)
    finally show ?thesis .
  next
    case 3
    then have "0 < - y" "- y \<le> - x" using assms by simp_all
    from binary64_mono_pos [OF this] show ?thesis by (simp add: binary64_uminus)
  qed
qed

lemma significand_bounds:
  assumes "0 < x"
  shows "0 \<le> round_half_even (x / quantum x) \<and> round_half_even (x / quantum x) \<le> 2 ^ 53"
proof -
  have q: "0 < quantum x" by (rule quantum_pos)
  have split: "2 powr (of_int (exponent64 x) + 1) = 2 ^ 53 * quantum x"
  proof -
    have "of_int (exponent64 x) + (1::real) = 53 + (of_int (exponent64 x) - 52)" by simp
    then have "(2::real) powr (of_int (exponent64 x) + 1) = 2 powr (53 + (of_int (exponent64 x) - 52))"
      by (rule arg_cong)
    also have "\<dots> = 2 powr 53 * quantum x" unfolding quantum_def by (rule powr_add)
    finally show ?thesis by simp
  qed
  have "x / quantum x \<le> 2 ^ 53"
    using below_next_binade [OF assms] q unfolding split by (simp add: field_simps)
  then have "x / quantum x \<le> of_int (2 ^ 53)" by simp
  from round_half_even_mono [OF this] have up: "round_half_even (x / quantum x) \<le> 2 ^ 53"
    by (simp only: round_half_even_of_int)
  have "of_int 0 \<le> x / quantum x" using assms q by simp
  from round_half_even_mono [OF this] have "0 \<le> round_half_even (x / quantum x)"
    by (simp only: round_half_even_of_int)
  with up show ?thesis by simp
qed

lemma binary64_of_quantum_multiple:
  assumes "x \<noteq> 0" "x / quantum x = of_int N"
  shows "binary64 x = x"
proof -
  have "binary64 x = of_int (round_half_even (of_int N)) * quantum x"
    using assms by (simp add: binary64_def)
  also have "\<dots> = of_int N * quantum x" by simp
  also have "\<dots> = x" using assms(2) quantum_pos [of x] by (simp add: field_simps)
  finally show ?thesis .
qed

lemma two_powr_int_nonneg:
  assumes "0 \<le> d"
  shows "(2::real) powr of_int d = of_int (2 ^ nat d)"
proof -
  have "(2::real) powr of_int d = 2 powr real (nat d)" using assms by simp
  also have "\<dots> = 2 ^ nat d" by (rule powr_realpow) simp
  finally show ?thesis by simp
qed

lemma binary64_representable_pos:
  assumes "0 < M" "M \<le> 2 ^ 53" "- 1074 \<le> j"
  shows "binary64 (of_int M * 2 powr of_int j) = of_int M * 2 powr of_int j"
proof -
  define x :: real where "x = of_int M * 2 powr of_int j"
  define E where "E = exponent64 x"
  define d where "d = j - (E - 52)"
  have x: "0 < x" using assms(1) by (simp add: x_def)
  have q: "quantum x = 2 powr (of_int E - 52)" by (simp add: quantum_def E_def)
  have ratio: "x / quantum x = of_int M * 2 powr of_int d"
  proof -
    have "x / quantum x = x / 2 powr (of_int E - 52)" by (simp only: q)
    also have "\<dots> = of_int M * (2 powr of_int j / 2 powr (of_int E - 52))"
      by (simp add: x_def)
    also have "2 powr of_int j / 2 powr (of_int E - 52) = (2::real) powr (of_int j - (of_int E - 52))"
      by (simp add: powr_diff)
    also have "of_int j - (of_int E - 52) = (of_int d :: real)" by (simp add: d_def)
    finally show ?thesis .
  qed
  have "\<exists>N. x / quantum x = of_int N"
  proof (cases "0 \<le> d")
    case True
    have "x / quantum x = of_int (M * 2 ^ nat d)"
      unfolding ratio two_powr_int_nonneg [OF True] by simp
    then show ?thesis by blast
  next
    case False
    then have Ej: "53 \<le> E - j" by (simp add: d_def)
    then have "- 1022 < E" using assms(3) by simp
    moreover have "E = max \<lfloor>log 2 x\<rfloor> (- 1022)" using x by (simp add: E_def exponent64_def)
    ultimately have "- 1022 \<le> \<lfloor>log 2 x\<rfloor>" by (simp add: max_def split: if_splits)
    from above_binade [OF x this] have "(2::real) powr of_int E \<le> of_int M * 2 powr of_int j"
      by (simp add: E_def x_def)
    then have "(2::real) powr of_int E / 2 powr of_int j \<le> (of_int M :: real)"
      by (simp add: field_simps)
    then have low: "(2::real) powr (of_int E - of_int j) \<le> (of_int M :: real)"
      by (simp add: powr_diff)
    have "(of_int M :: real) \<le> 2 ^ 53" using assms(2)
      by (metis of_int_le_iff of_int_numeral of_int_power)
    also have "\<dots> = 2 powr 53" by simp
    finally have Mle: "(of_int M :: real) \<le> 2 powr 53" .
    with low have le53: "(2::real) powr (of_int E - of_int j) \<le> 2 powr 53" by linarith
    have "of_int E - of_int j \<le> (53::real)"
    proof (rule ccontr)
      assume "\<not> of_int E - of_int j \<le> (53::real)"
      then have "(53::real) < of_int E - of_int j" by simp
      then have "(2::real) powr 53 < 2 powr (of_int E - of_int j)"
        by (intro powr_less_mono) simp_all
      with le53 show False by linarith
    qed
    then have "E - j \<le> 53" by linarith
    with Ej have eq: "E - j = 53" by simp
    then have "of_int E - of_int j = (53::real)" by linarith
    with low Mle have "(of_int M :: real) = 2 powr 53" by simp
    moreover have "d = - 1" using eq by (simp add: d_def)
    ultimately have "x / quantum x = (2::real) powr 53 * 2 powr (- 1)"
      unfolding ratio by simp
    also have "\<dots> = 2 powr (53 + - 1)" by (rule powr_add [symmetric])
    also have "\<dots> = of_int (2 ^ 52)" by simp
    finally show ?thesis by blast
  qed
  then obtain N where "x / quantum x = of_int N" by blast
  have "x \<noteq> 0" using x by simp
  from binary64_of_quantum_multiple [OF this \<open>x / quantum x = of_int N\<close>]
  show ?thesis unfolding x_def .
qed

lemma binary64_representable:
  assumes "\<bar>M\<bar> \<le> 2 ^ 53" "- 1074 \<le> j"
  shows "binary64 (of_int M * 2 powr of_int j) = of_int M * 2 powr of_int j"
proof -
  consider "M = 0" | "0 < M" | "M < 0" by linarith
  then show ?thesis
  proof cases
    case 1
    then show ?thesis by simp
  next
    case 2
    with assms show ?thesis by (intro binary64_representable_pos) simp_all
  next
    case 3
    then have "0 < - M" "- M \<le> 2 ^ 53" using assms(1) by simp_all
    from binary64_representable_pos [OF this assms(2)]
    have "binary64 (- (of_int M * 2 powr of_int j)) = - (of_int M * 2 powr of_int j)" by simp
    then show ?thesis by (simp add: binary64_uminus)
  qed
qed

lemma binary64_idem_pos:
  assumes "0 < x"
  shows "binary64 (binary64 x) = binary64 x"
proof -
  have b: "binary64 x = of_int (round_half_even (x / quantum x)) * 2 powr of_int (exponent64 x - 52)"
    using assms by (simp add: binary64_def quantum_def)
  have "- 1022 \<le> exponent64 x" by (simp add: exponent64_def)
  then have j: "- 1074 \<le> exponent64 x - 52" by simp
  have "\<bar>round_half_even (x / quantum x)\<bar> \<le> 2 ^ 53"
    using significand_bounds [OF assms] by simp
  from binary64_representable [OF this j] show ?thesis unfolding b .
qed

lemma binary64_idem [simp]: "binary64 (binary64 x) = binary64 x"
proof -
  consider "x = 0" | "0 < x" | "x < 0" by linarith
  then show ?thesis
  proof cases
    case 1
    then show ?thesis by simp
  next
    case 2
    then show ?thesis by (rule binary64_idem_pos)
  next
    case 3
    then have "0 < - x" by simp
    from binary64_idem_pos [OF this] show ?thesis by (simp add: binary64_uminus)
  qed
qed

lemma binary64_of_int:
  assumes "\<bar>M\<bar> \<le> 2 ^ 53"
  shows "binary64 (of_int M) = of_int M"
  using binary64_representable [OF assms, of 0] by simp

lemma binary64_of_nat:
  assumes "n \<le> 2 ^ 53"
  shows "binary64 (of_nat n) = of_nat n"
proof -
  have "\<bar>int n\<bar> \<le> 2 ^ 53" using assms by (simp add: of_nat_le_iff [of n "2 ^ 53", where ?'a = int, symmetric] del: of_nat_le_iff)
  from binary64_of_int [OF this] show ?thesis by simp
qed

lemma binary64_one [simp]: "binary64 1 = 1"
  using binary64_of_int [of 1] by simp

lemma binary64_scaled:
  assumes "2 ^ 52 \<le> \<bar>x\<bar> * 2 ^ m" "\<bar>x\<bar> * 2 ^ m < 2 ^ 53" "m \<le> 1074"
  shows "binary64 x = of_int (round_half_even (x * 2 ^ m)) / 2 ^ m"
proof -
  have x: "x \<noteq> 0" using assms(1) by auto
  define k where "k = 52 - int m"
  have p: "(2::real) powr of_int k = 2 ^ 52 / 2 ^ m"
  proof -
    have "(2::real) powr of_int k = 2 powr (52 - real m)" by (simp add: k_def)
    also have "\<dots> = 2 powr 52 / 2 powr real m" by (rule powr_diff)
    also have "\<dots> = 2 ^ 52 / 2 ^ m" by (simp add: powr_realpow)
    finally show ?thesis .
  qed
  have p1: "(2::real) powr (of_int k + 1) = 2 ^ 53 / 2 ^ m"
  proof -
    have "(2::real) powr (of_int k + 1) = 2 powr of_int k * 2 powr 1" by (rule powr_add)
    then show ?thesis by (simp add: p)
  qed
  have "2 powr of_int k \<le> \<bar>x\<bar>" using assms(1) unfolding p by (simp add: field_simps)
  moreover have "\<bar>x\<bar> < 2 powr (of_int k + 1)" using assms(2) unfolding p1 by (simp add: field_simps)
  ultimately have "\<lfloor>log 2 \<bar>x\<bar>\<rfloor> = k"
    using floor_log_eq_powr_iff [of "\<bar>x\<bar>" 2 k] x by simp
  moreover have "- 1022 \<le> k" using assms(3) by (simp add: k_def)
  ultimately have "exponent64 x = k" by (simp add: exponent64_def)
  then have "quantum x = 2 powr (of_int k - 52)" by (simp add: quantum_def)
  also have "of_int k - (52::real) = - real m" by (simp add: k_def)
  also have "(2::real) powr (- real m) = 1 / 2 ^ m" by (simp add: powr_minus_divide powr_realpow)
  finally have "quantum x = 1 / 2 ^ m" .
  then show ?thesis using x by (simp add: binary64_def)
qed

text \<open>The roundings that the runs of the examples below perform.\<close>

lemma binary64_numeral [simp]:
  "(numeral n :: int) \<le> 2 ^ 53 \<Longrightarrow> binary64 (numeral n) = numeral n"
  using binary64_of_int [of "numeral n"] by simp

lemma binary64_value_1: "binary64 (2628 / 5) = 4623226492472525 / 8796093022208"
  by (subst binary64_scaled [where m = 43]) (simp_all add: round_half_even_def)

lemma binary64_value_2: "binary64 (9 / 100) = 3242591731706757 / 36028797018963968"
  by (subst binary64_scaled [where m = 56]) (simp_all add: round_half_even_def)

lemma binary64_value_3: "binary64 (3 / 100) = 1080863910568919 / 36028797018963968"
  by (subst binary64_scaled [where m = 58]) (simp_all add: round_half_even_def)

lemma binary64_value_4: "binary64 (1080863910568919 / 18014398509481984) = 1080863910568919 / 18014398509481984"
  by (subst binary64_scaled [where m = 57]) (simp_all add: round_half_even_def)

lemma binary64_value_5: "binary64 (1183545982072966305 / 2251799813685248) = 4623226492472525 / 8796093022208"
  by (subst binary64_scaled [where m = 43]) (simp_all add: round_half_even_def)

lemma binary64_value_6: "binary64 (1183545982072966305 / 4503599627370496) = 4623226492472525 / 17592186044416"
  by (subst binary64_scaled [where m = 44]) (simp_all add: round_half_even_def)

lemma binary64_value_7: "binary64 (13869679477417575 / 17592186044416) = 1733709934677197 / 2199023255552"
  by (subst binary64_scaled [where m = 43]) (simp_all add: round_half_even_def)

lemma binary64_value_8: "binary64 (3550637946218898915 / 4503599627370496) = 6934839738708787 / 8796093022208"
  by (subst binary64_scaled [where m = 43]) (simp_all add: round_half_even_def)

lemma binary64_value_9: "binary64 (6934839738708788 / 6934839738708787) = 4503599627370497 / 4503599627370496"
  by (subst binary64_scaled [where m = 52]) (simp_all add: round_half_even_def)

lemma binary64_value_10: "binary64 (4503599627370497 / 4503599627370496) = 4503599627370497 / 4503599627370496"
  by (subst binary64_scaled [where m = 52]) (simp_all add: round_half_even_def)

lemma binary64_value_11: "binary64 (4931441591970694215 / 562949953421312) = 4815860929658881 / 549755813888"
  by (subst binary64_scaled [where m = 39]) (simp_all add: round_half_even_def)

lemma binary64_value_12: "binary64 (4815860929658881 / 4815860929658880) = 4503599627370497 / 4503599627370496"
  by (subst binary64_scaled [where m = 52]) (simp_all add: round_half_even_def)

lemma binary64_value_13: "binary64 (654429320852275 / 8796093022208) = 654429320852275 / 8796093022208"
  by (subst binary64_scaled [where m = 46]) (simp_all add: round_half_even_def)

lemma binary64_value_14: "binary64 (3 / 10) = 5404319552844595 / 18014398509481984"
  by (subst binary64_scaled [where m = 54]) (simp_all add: round_half_even_def)

lemma binary64_value_15: "binary64 (1 / 10) = 3602879701896397 / 36028797018963968"
  by (subst binary64_scaled [where m = 56]) (simp_all add: round_half_even_def)

lemma binary64_value_16: "binary64 (7205759403792793 / 36028797018963968) = 7205759403792793 / 36028797018963968"
  by (subst binary64_scaled [where m = 55]) (simp_all add: round_half_even_def)

lemma binary64_value_17: "binary64 (7890306547153108335 / 4503599627370496) = 7705377487454207 / 4398046511104"
  by (subst binary64_scaled [where m = 42]) (simp_all add: round_half_even_def)

lemma binary64_value_18: "binary64 (3945153273576554715 / 4503599627370496) = 876"
  by (subst binary64_scaled [where m = 43]) (simp_all add: round_half_even_def)

lemma binary64_value_19: "binary64 (5917729910364831525 / 2251799813685248) = 2628"
  by (subst binary64_scaled [where m = 41]) (simp_all add: round_half_even_def)

lemma binary64_value_20: "binary64 (1 / 3) = 6004799503160661 / 18014398509481984"
  by (subst binary64_scaled [where m = 54]) (simp_all add: round_half_even_def)

lemma binary64_value_21: "binary64 (6004799503160661 / 18014398509481984) = 6004799503160661 / 18014398509481984"
  by (subst binary64_scaled [where m = 54]) (simp_all add: round_half_even_def)

lemma binary64_value_22: "binary64 (6575255455960923795 / 2251799813685248) = 2920"
  by (subst binary64_scaled [where m = 41]) (simp_all add: round_half_even_def)

lemma binary64_value_23: "binary64 (3602879701896397 / 10808639105689190) = 3002399751580331 / 9007199254740992"
  by (subst binary64_scaled [where m = 54]) (simp_all add: round_half_even_def)

lemma binary64_value_24: "binary64 (8760 / 539) = 4574621142829957 / 281474976710656"
  by (subst binary64_scaled [where m = 48]) (simp_all add: round_half_even_def)

lemma binary64_value_25: "binary64 (2465720795985346823 / 281474976710656) = 4815860929658881 / 549755813888"
  by (subst binary64_scaled [where m = 39]) (simp_all add: round_half_even_def)

lemmas binary64_values =
  binary64_value_1
  binary64_value_2
  binary64_value_3
  binary64_value_4
  binary64_value_5
  binary64_value_6
  binary64_value_7
  binary64_value_8
  binary64_value_9
  binary64_value_10
  binary64_value_11
  binary64_value_12
  binary64_value_13
  binary64_value_14
  binary64_value_15
  binary64_value_16
  binary64_value_17
  binary64_value_18
  binary64_value_19
  binary64_value_20
  binary64_value_21
  binary64_value_22
  binary64_value_23
  binary64_value_24
  binary64_value_25

section \<open>The simulation loop in double precision\<close>

lemma rounding_identity: "rounding (\<lambda>x. x)"
  by (simp add: rounding_def)

lemma rounding_binary64: "rounding binary64"
  by (simp add: rounding_def binary64_mono)

lemma rounding_mono: "rounding rnd \<Longrightarrow> x \<le> y \<Longrightarrow> rnd x \<le> rnd y"
  by (simp add: rounding_def)

lemma rounding_nonneg: "rounding rnd \<Longrightarrow> 0 \<le> x \<Longrightarrow> 0 \<le> rnd x"
  using rounding_mono [of rnd 0 x] by (simp add: rounding_def)

lemma rounding_le_one: "rounding rnd \<Longrightarrow> x \<le> 1 \<Longrightarrow> rnd x \<le> 1"
  using rounding_mono [of rnd x 1] by (simp add: rounding_def)

lemma rounding_simps: "rounding rnd \<Longrightarrow> rnd 0 = 0" "rounding rnd \<Longrightarrow> rnd 1 = 1"
  "rounding rnd \<Longrightarrow> rnd (rnd x) = rnd x"
  by (simp_all add: rounding_def)

lemma sum_fp_exact: "sum_fp (\<lambda>x. x) us acc = acc + sum_list us"
  by (induction us arbitrary: acc) simp_all

lemma interval_step_fp_exact:
  "interval_step_fp (\<lambda>x. x) capacity load t sol i s = interval_step capacity load t sol i s"
  by (simp add: interval_step_fp_def interval_step_def py_truediv_fp_def py_truediv_def Let_def)

lemma uptime_loop_fp_exact:
  "uptime_loop_fp (\<lambda>x. x) capacity load t sol is s = uptime_loop capacity load t sol is s"
  by (induction "is" arbitrary: s) (auto simp: interval_step_fp_exact split: sum.splits)

lemma py_truediv_fp_exact: "py_truediv_fp (\<lambda>x. x) x y = py_truediv x y"
  by (simp add: py_truediv_fp_def py_truediv_def)

lemma uptime_trajectories_fp_exact:
  "uptime_trajectories_fp (\<lambda>x. x) capacity load sol = uptime_trajectories capacity load sol"
  by (auto simp: uptime_trajectories_fp_def uptime_trajectories_def py_truediv_fp_exact
      uptime_loop_fp_exact Let_def split: sum.splits)

lemma uptime_fp_exact: "uptime_fp (\<lambda>x. x) capacity load sol = uptime capacity load sol"
  by (auto simp: uptime_fp_def uptime_def uptime_trajectories_fp_exact py_truediv_fp_exact
      sum_fp_exact Let_def split: sum.splits prod.splits)

lemma interval_step_fp_dispatch:
  "interval_step_fp rnd capacity load t sol i s =
     (case dispatch_fp rnd capacity load t (battery s ! i) (sol ! i) of
        Inl e \<Rightarrow> Inl e
      | Inr (u, b') \<Rightarrow> Inr \<lparr>battery = (battery s)[i + 1 := b'],
                            utilization = (utilization s)[i := u]\<rparr>)"
  by (simp add: interval_step_fp_def dispatch_fp_def Let_def split: sum.splits)

lemma uptime_loop_fp_append:
  "uptime_loop_fp rnd capacity load t sol (is @ js) s =
     (case uptime_loop_fp rnd capacity load t sol is s of
        Inl e \<Rightarrow> Inl e
      | Inr s' \<Rightarrow> uptime_loop_fp rnd capacity load t sol js s')"
  by (induction "is" arbitrary: s) (auto split: sum.splits)

lemma uptime_loop_fp_follows:
  assumes "uptime_loop_fp rnd capacity load t sol [0..<k] s0 = Inr s" "k \<le> length sol"
    and "length (battery s0) = Suc (length sol)" "length (utilization s0) = length sol"
  shows "follows_fp rnd capacity load t sol k s \<and> battery s ! 0 = battery s0 ! 0"
  using assms(1,2)
proof (induction k arbitrary: s)
  case 0
  then show ?case using assms(3,4) by (simp add: follows_fp_def)
next
  case (Suc k)
  from Suc.prems(1) obtain s1 where s1:
    "uptime_loop_fp rnd capacity load t sol [0..<k] s0 = Inr s1"
    "interval_step_fp rnd capacity load t sol k s1 = Inr s"
    by (auto simp: uptime_loop_fp_append split: sum.splits)
  from Suc.IH [OF s1(1)] Suc.prems(2)
  have ih: "follows_fp rnd capacity load t sol k s1" "battery s1 ! 0 = battery s0 ! 0" by simp_all
  from s1(2) obtain u b' where d:
    "dispatch_fp rnd capacity load t (battery s1 ! k) (sol ! k) = Inr (u, b')"
    "s = \<lparr>battery = (battery s1)[k + 1 := b'], utilization = (utilization s1)[k := u]\<rparr>"
    by (auto simp: interval_step_fp_dispatch split: sum.splits)
  have len: "Suc k < length (battery s1)" "k < length (utilization s1)"
    using ih(1) Suc.prems(2) by (simp_all add: follows_fp_def)
  have "follows_fp rnd capacity load t sol (Suc k) s"
    using ih(1) d len by (auto simp: follows_fp_def less_Suc_eq nth_list_update)
  moreover have "battery s ! 0 = battery s0 ! 0" using ih(2) d(2) by simp
  ultimately show ?case by simp
qed

lemma dispatch_fp_ok:
  "rnd (load * t) \<noteq> 0 \<Longrightarrow> \<exists>u b'. dispatch_fp rnd capacity load t b x = Inr (u, b')"
  by (simp add: dispatch_fp_def py_truediv_fp_def)

lemma uptime_loop_fp_returns:
  assumes "rnd (load * t) \<noteq> 0"
  shows "\<exists>s'. uptime_loop_fp rnd capacity load t sol is s = Inr s'"
proof (induction "is" arbitrary: s)
  case Nil
  then show ?case by simp
next
  case (Cons i "is")
  obtain u b' where "dispatch_fp rnd capacity load t (battery s ! i) (sol ! i) = Inr (u, b')"
    using dispatch_fp_ok [of rnd load t capacity "battery s ! i" "sol ! i"] assms by blast
  then show ?case using Cons.IH by (simp add: interval_step_fp_dispatch)
qed

lemma remaining_load_nonneg:
  assumes "rounding rnd" "0 \<le> t" "x \<le> load"
  shows "0 \<le> rnd (rnd (load - x) * t)"
proof -
  have "0 \<le> rnd (load - x)" using assms(1,3) by (intro rounding_nonneg [where rnd = rnd]) simp_all
  then have "0 \<le> rnd (load - x) * t" using assms(2) by simp
  then show ?thesis using assms(1) by (intro rounding_nonneg [where rnd = rnd])
qed

lemma charge_nonneg:
  assumes "rounding rnd" "0 \<le> t" "load \<le> x" "0 \<le> b"
  shows "0 \<le> rnd (b + rnd (t * rnd (x - load)))"
proof -
  have "0 \<le> rnd (x - load)" using assms(1,3) by (intro rounding_nonneg [where rnd = rnd]) simp_all
  then have "0 \<le> t * rnd (x - load)" using assms(2) by simp
  then have "0 \<le> rnd (t * rnd (x - load))" using assms(1) by (intro rounding_nonneg [where rnd = rnd])
  then have "0 \<le> b + rnd (t * rnd (x - load))" using assms(4) by simp
  then show ?thesis using assms(1) by (intro rounding_nonneg [where rnd = rnd])
qed


lemma dispatch_fp_mono:
  assumes "rounding rnd" "0 \<le> t" "0 \<le> load" "b1 \<le> b2" "c1 \<le> c2"
    and "dispatch_fp rnd c1 load t b1 x = Inr (u1, b1')"
    and "dispatch_fp rnd c2 load t b2 x = Inr (u2, b2')"
  shows "b1' \<le> b2' \<and> (u2 = 1 \<or> u1 \<le> u2)"
proof (cases "x > load")
  case True
  then have "b1' = min (rnd (b1 + rnd (t * rnd (x - load)))) c1"
    "b2' = min (rnd (b2 + rnd (t * rnd (x - load)))) c2" "u2 = 1"
    using assms(6,7) by (auto simp: dispatch_fp_def)
  moreover have "rnd (b1 + rnd (t * rnd (x - load))) \<le> rnd (b2 + rnd (t * rnd (x - load)))"
    using assms(1,4) by (intro rounding_mono [where rnd = rnd]) simp_all
  ultimately show ?thesis using assms(5) by (simp add: min_def)
next
  case False
  define r where "r = rnd (rnd (load - x) * t)"
  show ?thesis
  proof (cases "b2 > r")
    case True
    then have u2: "u2 = 1" "b2' = rnd (b2 - r)"
      using assms(7) False by (auto simp: dispatch_fp_def r_def)
    have "0 \<le> rnd (b2 - r)" using True assms(1) by (intro rounding_nonneg [where rnd = rnd]) simp_all
    moreover have "rnd (b1 - r) \<le> rnd (b2 - r)"
      using assms(1,4) by (intro rounding_mono [where rnd = rnd]) simp_all
    moreover have "b1' = rnd (b1 - r) \<or> b1' = 0"
      using assms(6) False
      by (auto simp: dispatch_fp_def r_def py_truediv_fp_def split: if_splits)
    ultimately show ?thesis using u2 by auto
  next
    case nb2: False
    then have nb1: "\<not> b1 > r" using assms(4) by simp
    have d: "rnd (load * t) \<noteq> 0"
      using assms(7) False nb2 by (auto simp: dispatch_fp_def r_def py_truediv_fp_def split: if_splits)
    have u1: "u1 = rnd (rnd (rnd (x * t) + b1) / rnd (load * t))" "b1' = 0"
      using assms(6) False nb1 d by (auto simp: dispatch_fp_def r_def py_truediv_fp_def)
    have u2: "u2 = rnd (rnd (rnd (x * t) + b2) / rnd (load * t))" "b2' = 0"
      using assms(7) False nb2 d by (auto simp: dispatch_fp_def r_def py_truediv_fp_def)
    have "0 \<le> rnd (load * t)" using assms by (intro rounding_nonneg [where rnd = rnd]) simp_all
    moreover have "rnd (rnd (x * t) + b1) \<le> rnd (rnd (x * t) + b2)"
      using assms(1,4) by (intro rounding_mono [where rnd = rnd]) simp_all
    ultimately have "rnd (rnd (x * t) + b1) / rnd (load * t) \<le> rnd (rnd (x * t) + b2) / rnd (load * t)"
      by (intro divide_right_mono)
    then have "u1 \<le> u2" unfolding u1 u2 using assms(1) by (intro rounding_mono [where rnd = rnd])
    then show ?thesis using u1 u2 by simp
  qed
qed

lemma dispatch_fp_empty:
  assumes "rounding rnd" "0 \<le> t" "0 \<le> load"
    and "dispatch_fp rnd 0 load t 0 x = Inr (u, b')"
  shows "b' = 0 \<and> u = (if x > load then 1 else rnd (rnd (x * t) / rnd (load * t)))
         \<and> u \<le> 1 \<and> (0 \<le> x \<longrightarrow> 0 \<le> u)"
proof (cases "x > load")
  case True
  then have ub: "u = 1" "b' = min (rnd (0 + rnd (t * rnd (x - load)))) 0"
    using assms(4) by (auto simp: dispatch_fp_def)
  have "0 \<le> rnd (0 + rnd (t * rnd (x - load)))"
    using charge_nonneg [OF assms(1,2), of load x 0] True by simp
  then show ?thesis using ub True by simp
next
  case False
  have r: "0 \<le> rnd (rnd (load - x) * t)"
    using remaining_load_nonneg [OF assms(1,2), of x load] False by simp
  have d: "rnd (load * t) \<noteq> 0"
    using assms(4) False r by (auto simp: dispatch_fp_def py_truediv_fp_def split: if_splits)
  have "u = rnd (rnd (rnd (x * t) + 0) / rnd (load * t))" and b': "b' = 0"
    using assms(4) False r d by (auto simp: dispatch_fp_def py_truediv_fp_def)
  then have u: "u = rnd (rnd (x * t) / rnd (load * t))"
    using assms(1) by (simp add: rounding_simps)
  have dpos: "0 < rnd (load * t)"
    using d rounding_nonneg [OF assms(1), of "load * t"] assms(2,3) by simp
  have "x * t \<le> load * t" using False assms(2) by (intro mult_right_mono) simp_all
  then have "rnd (x * t) \<le> rnd (load * t)" using assms(1) by (intro rounding_mono [where rnd = rnd])
  then have "rnd (x * t) / rnd (load * t) \<le> 1" using dpos by simp
  then have le1: "u \<le> 1" unfolding u using assms(1) by (intro rounding_le_one [where rnd = rnd])
  have "0 \<le> u" if "0 \<le> x"
  proof -
    have "0 \<le> rnd (x * t)" using that assms by (intro rounding_nonneg [where rnd = rnd]) simp_all
    then have "0 \<le> rnd (x * t) / rnd (load * t)" using dpos by simp
    then show ?thesis unfolding u using assms(1) by (intro rounding_nonneg [where rnd = rnd])
  qed
  then show ?thesis using u b' le1 False by simp
qed

lemma dispatch_fp_balanced:
  assumes "rounding rnd"
  shows "0 < b \<Longrightarrow> dispatch_fp rnd capacity load t b load = Inr (1, rnd b)"
    and "rnd (load * t) \<noteq> 0 \<Longrightarrow> dispatch_fp rnd capacity load t 0 load = Inr (1, 0)"
    and "rnd (load * t) = 0 \<Longrightarrow> dispatch_fp rnd capacity load t 0 load = Inl ZeroDivisionError"
  using assms by (simp_all add: dispatch_fp_def py_truediv_fp_def rounding_simps)


lemma sum_fp_zeros:
  assumes "rounding rnd" "\<forall>u\<in>set us. u = 0"
  shows "sum_fp rnd us 0 = 0"
  using assms(2) by (induction us) (simp_all add: rounding_simps [OF assms(1)])

lemma t_interval_fp:
  "sol \<noteq> [] \<Longrightarrow> py_truediv_fp rnd (rnd 8760) (real (length sol))
     = Inr (rnd (rnd 8760 / real (length sol)))"
  by (simp add: py_truediv_fp_def)

lemma uptime_trajectories_fp_empty:
  "uptime_trajectories_fp rnd capacity load [] = Inl ZeroDivisionError"
  by (simp add: uptime_trajectories_fp_def py_truediv_fp_def)

lemma uptime_fp_empty: "uptime_fp rnd capacity load [] = Inl ZeroDivisionError"
  by (simp add: uptime_fp_def uptime_trajectories_fp_empty)

lemma uptime_trajectories_fp_follows:
  assumes "uptime_trajectories_fp rnd capacity load sol = Inr (t, s)"
  shows "sol \<noteq> [] \<and> t = rnd (rnd 8760 / real (length sol))
         \<and> follows_fp rnd capacity load t sol (length sol) s \<and> battery s ! 0 = capacity"
proof -
  have ne: "sol \<noteq> []" using assms by (auto simp: uptime_trajectories_fp_empty)
  let ?s0 = "\<lparr>battery = [capacity] @ map (\<lambda>_. 0) sol, utilization = map (\<lambda>_. 0) sol\<rparr>"
  have t: "t = rnd (rnd 8760 / real (length sol))"
    and loop: "uptime_loop_fp rnd capacity load t sol [0..<length sol] ?s0 = Inr s"
    using assms ne
    by (auto simp: uptime_trajectories_fp_def py_truediv_fp_def Let_def split: sum.splits if_splits)
  from uptime_loop_fp_follows [OF loop] have
    "follows_fp rnd capacity load t sol (length sol) s" "battery s ! 0 = capacity"
    by simp_all
  with ne t show ?thesis by simp
qed

lemma uptime_trajectories_fp_returns:
  assumes "sol \<noteq> []" "rnd (load * rnd (rnd 8760 / real (length sol))) \<noteq> 0"
  shows "\<exists>s. uptime_trajectories_fp rnd capacity load sol
               = Inr (rnd (rnd 8760 / real (length sol)), s)"
proof -
  let ?s0 = "\<lparr>battery = [capacity] @ map (\<lambda>_. 0) sol, utilization = map (\<lambda>_. 0) sol\<rparr>"
  from uptime_loop_fp_returns
      [of rnd load "rnd (rnd 8760 / real (length sol))" capacity sol "[0..<length sol]" ?s0] assms(2)
  obtain s where "uptime_loop_fp rnd capacity load (rnd (rnd 8760 / real (length sol))) sol
                    [0..<length sol] ?s0 = Inr s" by blast
  then show ?thesis using assms(1) by (simp add: uptime_trajectories_fp_def t_interval_fp)
qed

lemma uptime_fp_of_trajectories:
  assumes "uptime_trajectories_fp rnd capacity load sol = Inr (t, s)"
  shows "uptime_fp rnd capacity load sol =
           Inr (capacity, load,
                rnd (real (length (filter (\<lambda>b. b > 0) (butlast (battery s)))) / real (length sol)),
                rnd (rnd (t * sum_fp rnd (utilization s) 0) / 8760))"
proof -
  from uptime_trajectories_fp_follows [OF assms] have
    "sol \<noteq> []" "length (battery s) = Suc (length sol)"
    by (simp_all add: follows_fp_def)
  then show ?thesis
    using assms by (simp add: uptime_fp_def py_truediv_fp_def count_positive_filter)
qed



lemma follows_fp_empty_battery:
  assumes "follows_fp rnd 0 load t sol k s" "rounding rnd" "0 \<le> t" "0 \<le> load"
    and "battery s ! 0 = 0"
  shows "i \<le> k \<Longrightarrow> battery s ! i = 0"
proof (induction i)
  case 0
  then show ?case using assms by simp
next
  case (Suc i)
  then have ih: "battery s ! i = 0" and ik: "i < k" by simp_all
  have "dispatch_fp rnd 0 load t (battery s ! i) (sol ! i)
          = Inr (utilization s ! i, battery s ! Suc i)"
    using assms(1) ik by (simp add: follows_fp_def)
  then have "dispatch_fp rnd 0 load t 0 (sol ! i) = Inr (utilization s ! i, battery s ! Suc i)"
    unfolding ih .
  from dispatch_fp_empty [OF assms(2,3,4) this] show ?case by simp
qed

lemma follows_fp_empty_utilization:
  assumes "follows_fp rnd 0 load t sol k s" "rounding rnd" "0 \<le> t" "0 \<le> load"
    and "battery s ! 0 = 0" "i < k"
  shows "utilization s ! i = (if sol ! i > load then 1 else rnd (rnd (sol ! i * t) / rnd (load * t)))
         \<and> utilization s ! i \<le> 1 \<and> (0 \<le> sol ! i \<longrightarrow> 0 \<le> utilization s ! i)"
proof -
  have b: "battery s ! i = 0" using follows_fp_empty_battery [OF assms(1-5), of i] assms(6) by simp
  have "dispatch_fp rnd 0 load t (battery s ! i) (sol ! i)
          = Inr (utilization s ! i, battery s ! Suc i)"
    using assms(1,6) by (simp add: follows_fp_def)
  then have "dispatch_fp rnd 0 load t 0 (sol ! i) = Inr (utilization s ! i, battery s ! Suc i)"
    unfolding b .
  from dispatch_fp_empty [OF assms(2,3,4) this] show ?thesis by blast
qed

lemma follows_fp_mono:
  assumes "follows_fp rnd c1 load t sol k s1" "follows_fp rnd c2 load t sol k s2"
    and "rounding rnd" "0 \<le> t" "0 \<le> load" "c1 \<le> c2" "battery s1 ! 0 \<le> battery s2 ! 0"
  shows "i \<le> k \<Longrightarrow> battery s1 ! i \<le> battery s2 ! i"
proof (induction i)
  case 0
  then show ?case using assms by simp
next
  case (Suc i)
  then have ih: "battery s1 ! i \<le> battery s2 ! i" and ik: "i < k" by simp_all
  have d1: "dispatch_fp rnd c1 load t (battery s1 ! i) (sol ! i)
              = Inr (utilization s1 ! i, battery s1 ! Suc i)"
    using assms(1) ik by (simp add: follows_fp_def)
  have d2: "dispatch_fp rnd c2 load t (battery s2 ! i) (sol ! i)
              = Inr (utilization s2 ! i, battery s2 ! Suc i)"
    using assms(2) ik by (simp add: follows_fp_def)
  from dispatch_fp_mono [OF assms(3,4,5) ih assms(6) d1 d2] show ?case by simp
qed

lemma follows_fp_mono_utilization:
  assumes "follows_fp rnd c1 load t sol k s1" "follows_fp rnd c2 load t sol k s2"
    and "rounding rnd" "0 \<le> t" "0 \<le> load" "c1 \<le> c2" "battery s1 ! 0 \<le> battery s2 ! 0"
    and "i < k"
  shows "utilization s2 ! i = 1 \<or> utilization s1 ! i \<le> utilization s2 ! i"
proof -
  have b: "battery s1 ! i \<le> battery s2 ! i"
    using follows_fp_mono [OF assms(1-7), of i] assms(8) by simp
  have d1: "dispatch_fp rnd c1 load t (battery s1 ! i) (sol ! i)
              = Inr (utilization s1 ! i, battery s1 ! Suc i)"
    using assms(1,8) by (simp add: follows_fp_def)
  have d2: "dispatch_fp rnd c2 load t (battery s2 ! i) (sol ! i)
              = Inr (utilization s2 ! i, battery s2 ! Suc i)"
    using assms(2,8) by (simp add: follows_fp_def)
  from dispatch_fp_mono [OF assms(3,4,5) b assms(6) d1 d2] show ?thesis by simp
qed

lemma follows_fp_held:
  assumes "follows_fp rnd capacity load t sol k s" "rounding rnd" "rnd capacity = capacity"
    and "0 \<le> capacity" "\<forall>x\<in>set sol. x = load" "k \<le> length sol" "battery s ! 0 = capacity"
  shows "i \<le> k \<Longrightarrow> battery s ! i = capacity \<and> (\<forall>j<i. utilization s ! j = 1)"
proof (induction i)
  case 0
  then show ?case using assms by simp
next
  case (Suc i)
  then have ih: "battery s ! i = capacity" "\<forall>j<i. utilization s ! j = 1" and ik: "i < k"
    by simp_all
  have x: "sol ! i = load" using assms(5,6) ik by simp
  have "dispatch_fp rnd capacity load t (battery s ! i) (sol ! i)
          = Inr (utilization s ! i, battery s ! Suc i)"
    using assms(1) ik by (simp add: follows_fp_def)
  then have d: "dispatch_fp rnd capacity load t capacity load
             = Inr (utilization s ! i, battery s ! Suc i)"
    unfolding ih(1) x .
  have "utilization s ! i = 1 \<and> battery s ! Suc i = capacity"
  proof (cases "0 < capacity")
    case True
    from dispatch_fp_balanced(1) [OF assms(2) True, of capacity load t] d assms(3)
    show ?thesis by simp
  next
    case False
    then have c: "capacity = 0" using assms(4) by simp
    have "rnd (load * t) \<noteq> 0"
      using d dispatch_fp_balanced(3) [OF assms(2), of load t capacity] unfolding c by auto
    from dispatch_fp_balanced(2) [OF assms(2) this, of capacity] d c show ?thesis by simp
  qed
  with ih show ?case by (auto simp: less_Suc_eq)
qed

lemma sum_fp_ones:
  assumes "\<And>k. k \<le> n \<Longrightarrow> rnd (real k) = real k" "length us + m \<le> n" "\<forall>u\<in>set us. u = 1"
  shows "sum_fp rnd us (real m) = real (m + length us)"
  using assms(2,3)
proof (induction us arbitrary: m)
  case Nil
  then show ?case by simp
next
  case (Cons u us)
  have "rnd (real m + u) = real (Suc m)"
    using Cons.prems assms(1) [of "Suc m"] by (simp add: add.commute)
  then have "sum_fp rnd (u # us) (real m) = sum_fp rnd us (real (Suc m))" by simp
  also have "\<dots> = real (Suc m + length us)" using Cons.prems by (intro Cons.IH) simp_all
  finally show ?case by simp
qed

lemma binary64_8760 [simp]: "binary64 8760 = 8760"
  using binary64_of_int [of 8760] by simp

lemma t_interval_nonneg:
  assumes "rounding rnd"
  shows "0 \<le> rnd (rnd 8760 / real (length sol))"
proof -
  have "0 \<le> rnd 8760" using assms by (intro rounding_nonneg [where rnd = rnd]) simp_all
  then have "0 \<le> rnd 8760 / real (length sol)" by simp
  then show ?thesis using assms by (intro rounding_nonneg [where rnd = rnd])
qed


lemma sum_fp_mono:
  assumes "rounding rnd" "length us = length vs" "\<forall>i<length us. us ! i \<le> vs ! i" "a \<le> b"
  shows "sum_fp rnd us a \<le> sum_fp rnd vs b"
  using assms(2,3,4)
proof (induction us vs arbitrary: a b rule: list_induct2)
  case Nil
  then show ?case by simp
next
  case (Cons u us v vs)
  have "u \<le> v" using Cons.prems(1) by auto
  then have "rnd (a + u) \<le> rnd (b + v)"
    using Cons.prems(2) assms(1) by (intro rounding_mono [where rnd = rnd]) simp_all
  moreover have "\<forall>i<length us. us ! i \<le> vs ! i" using Cons.prems(1) by auto
  ultimately show ?case using Cons.IH by simp
qed



lemma double_in_range_numeral [simp]:
  "(numeral n :: int) \<le> 2 ^ 53 \<Longrightarrow> double_in_range (numeral n)"
proof -
  assume a: "(numeral n :: int) \<le> 2 ^ 53"
  then have "(numeral n :: int) \<le> 2 ^ 1000"
    by (rule order_trans) simp
  then have "(of_int (numeral n) :: real) \<le> of_int (2 ^ 1000)" by (simp only: of_int_le_iff)
  then have "(numeral n :: real) \<le> 2 ^ 1000" by simp
  with a show ?thesis by (simp add: double_in_range_def)
qed

lemma double_in_range_zero_one [simp]: "double_in_range 0" "double_in_range 1"
  by (simp_all add: double_in_range_def)


section \<open>Claims about \<open>uptime\<close>\<close>

lemma overshoot_run:
  "uptime_trajectories_fp binary64 (binary64 (5256 / 10)) (binary64 (9 / 100)) [binary64 (3 / 100)]
     = Inr (8760, \<lparr>battery = [binary64 (5256 / 10), 0],
                   utilization = [4503599627370497 / 4503599627370496]\<rparr>)"
  "uptime_fp binary64 (binary64 (5256 / 10)) (binary64 (9 / 100)) [binary64 (3 / 100)]
     = Inr (binary64 (5256 / 10), binary64 (9 / 100), 1, 4503599627370497 / 4503599627370496)"
  by (simp_all add: uptime_fp_def uptime_trajectories_fp_def interval_step_fp_def
      py_truediv_fp_def binary64_values)




lemma dispatch_fp_empty_divisor:
  assumes "rounding rnd" "0 \<le> t" "x \<le> load"
    and "dispatch_fp rnd 0 load t 0 x = Inr (u, b')"
  shows "rnd (load * t) \<noteq> 0"
proof -
  have "0 \<le> rnd (rnd (load - x) * t)"
    using remaining_load_nonneg [OF assms(1,2), of x load] assms(3) by simp
  then show ?thesis
    using assms(3,4) by (auto simp: dispatch_fp_def py_truediv_fp_def split: if_splits)
qed

text \<open>
  Claim C7, as amended. With capacity 0, a load \<open>> 0\<close> and a solar series with entries
  \<open>\<ge> 0\<close> (doubles of magnitude at most \<open>2 ^ 1000\<close>), in double precision: the battery stays
  empty, and the utilization of interval \<open>i\<close> is 1 when \<open>sol[i] > load\<close> and otherwise the
  quotient \<open>(sol[i] * t_interval) / (load * t_interval)\<close> with each operation rounded. This
  value lies between 0 and 1, is 0 where \<open>sol[i] = 0\<close> and 1 where \<open>sol[i] \<ge> load\<close>; it is
  \<open>min (sol[i] / load) 1\<close> in exact arithmetic and can differ from it in the last place
  otherwise. For a series of all zeros the returned load-served fraction is 0. The empty
  series raises; a non-empty one returns unless \<open>load * t_interval\<close> rounds to zero.
\<close>

theorem uptime_fp_without_battery:
  assumes "\<forall>x\<in>set sol. double_in_range x \<and> 0 \<le> x" "double_in_range load" "0 < load"
  shows "(sol = [] \<longrightarrow> uptime_fp binary64 0 load sol = Inl ZeroDivisionError) \<and>
         (sol \<noteq> [] \<and> binary64 (load * binary64 (8760 / real (length sol))) \<noteq> 0 \<longrightarrow>
            (\<exists>t s. uptime_trajectories_fp binary64 0 load sol = Inr (t, s))) \<and>
         (\<forall>t s. uptime_trajectories_fp binary64 0 load sol = Inr (t, s) \<longrightarrow>
            length (utilization s) = length sol \<and>
            (\<forall>i<length sol.
               battery s ! i = 0 \<and>
               utilization s ! i =
                 (if sol ! i > load then 1
                  else binary64 (binary64 (sol ! i * t) / binary64 (load * t))) \<and>
               0 \<le> utilization s ! i \<and> utilization s ! i \<le> 1 \<and>
               (sol ! i = 0 \<longrightarrow> utilization s ! i = 0) \<and>
               (load \<le> sol ! i \<longrightarrow> utilization s ! i = 1)) \<and>
            (\<exists>battery_uptime load_served.
               uptime_fp binary64 0 load sol = Inr (0, load, battery_uptime, load_served) \<and>
               ((\<forall>x\<in>set sol. x = 0) \<longrightarrow> load_served = 0)))"
proof -
  note r = rounding_binary64
  have load: "0 \<le> load" using assms(3) by simp
  have empty: "sol = [] \<longrightarrow> uptime_fp binary64 0 load sol = Inl ZeroDivisionError"
    by (simp add: uptime_fp_empty)
  have returns: "sol \<noteq> [] \<and> binary64 (load * binary64 (8760 / real (length sol))) \<noteq> 0 \<longrightarrow>
            (\<exists>t s. uptime_trajectories_fp binary64 0 load sol = Inr (t, s))"
    using uptime_trajectories_fp_returns [of sol binary64 load 0] by auto
  have inv: "\<forall>t s. uptime_trajectories_fp binary64 0 load sol = Inr (t, s) \<longrightarrow>
            length (utilization s) = length sol \<and>
            (\<forall>i<length sol.
               battery s ! i = 0 \<and>
               utilization s ! i =
                 (if sol ! i > load then 1
                  else binary64 (binary64 (sol ! i * t) / binary64 (load * t))) \<and>
               0 \<le> utilization s ! i \<and> utilization s ! i \<le> 1 \<and>
               (sol ! i = 0 \<longrightarrow> utilization s ! i = 0) \<and>
               (load \<le> sol ! i \<longrightarrow> utilization s ! i = 1)) \<and>
            (\<exists>battery_uptime load_served.
               uptime_fp binary64 0 load sol = Inr (0, load, battery_uptime, load_served) \<and>
               ((\<forall>x\<in>set sol. x = 0) \<longrightarrow> load_served = 0))"
    (is "\<forall>t s. _ \<longrightarrow> ?inv t s")
  proof (intro allI impI)
    fix t s
    assume tr: "uptime_trajectories_fp binary64 0 load sol = Inr (t, s)"
    from uptime_trajectories_fp_follows [OF tr] have
      t: "t = binary64 (binary64 8760 / real (length sol))"
      and f: "follows_fp binary64 0 load t sol (length sol) s"
      and b0: "battery s ! 0 = 0"
      by blast+
    have t0: "0 \<le> t" unfolding t using r by (rule t_interval_nonneg)
    have len: "length (utilization s) = length sol" using f by (simp add: follows_fp_def)
    have each: "\<forall>i<length sol.
               battery s ! i = 0 \<and>
               utilization s ! i =
                 (if sol ! i > load then 1
                  else binary64 (binary64 (sol ! i * t) / binary64 (load * t))) \<and>
               0 \<le> utilization s ! i \<and> utilization s ! i \<le> 1 \<and>
               (sol ! i = 0 \<longrightarrow> utilization s ! i = 0) \<and>
               (load \<le> sol ! i \<longrightarrow> utilization s ! i = 1)"
    proof (intro allI impI)
      fix i assume i: "i < length sol"
      have b: "battery s ! i = 0" using follows_fp_empty_battery [OF f r t0 load b0, of i] i by simp
      have x: "0 \<le> sol ! i" using assms(1) i by simp
      from follows_fp_empty_utilization [OF f r t0 load b0 i] x
      have u: "utilization s ! i =
                 (if sol ! i > load then 1
                  else binary64 (binary64 (sol ! i * t) / binary64 (load * t)))"
        "utilization s ! i \<le> 1" "0 \<le> utilization s ! i"
        by blast+
      have zero: "utilization s ! i = 0" if "sol ! i = 0"
        using u(1) that assms(3) by simp
      have full: "utilization s ! i = 1" if "load \<le> sol ! i"
      proof (cases "sol ! i > load")
        case True
        then show ?thesis using u(1) by simp
      next
        case False
        then have eq: "sol ! i = load" using that by simp
        have "dispatch_fp binary64 0 load t (battery s ! i) (sol ! i)
                = Inr (utilization s ! i, battery s ! Suc i)"
          using f i by (simp add: follows_fp_def)
        then have "dispatch_fp binary64 0 load t 0 load = Inr (utilization s ! i, battery s ! Suc i)"
          unfolding b eq .
        from dispatch_fp_empty_divisor [OF r t0 _ this] have "binary64 (load * t) \<noteq> 0" by simp
        then show ?thesis using u(1) eq by simp
      qed
      from b u zero full show "battery s ! i = 0 \<and>
               utilization s ! i =
                 (if sol ! i > load then 1
                  else binary64 (binary64 (sol ! i * t) / binary64 (load * t))) \<and>
               0 \<le> utilization s ! i \<and> utilization s ! i \<le> 1 \<and>
               (sol ! i = 0 \<longrightarrow> utilization s ! i = 0) \<and>
               (load \<le> sol ! i \<longrightarrow> utilization s ! i = 1)"
        by blast
    qed
    have up: "uptime_fp binary64 0 load sol =
                Inr (0, load,
                     binary64 (real (length (filter (\<lambda>b. b > 0) (butlast (battery s))))
                               / real (length sol)),
                     binary64 (binary64 (t * sum_fp binary64 (utilization s) 0) / 8760))"
      using uptime_fp_of_trajectories [OF tr] .
    have "binary64 (binary64 (t * sum_fp binary64 (utilization s) 0) / 8760) = 0"
      if "\<forall>x\<in>set sol. x = 0"
    proof -
      have "\<forall>i<length sol. sol ! i = 0" using that by simp
      with each have "\<forall>i<length sol. utilization s ! i = 0" by blast
      then have "\<forall>u\<in>set (utilization s). u = 0" using len by (auto simp: in_set_conv_nth)
      from sum_fp_zeros [OF r this] show ?thesis by simp
    qed
    with up have "\<exists>battery_uptime load_served.
               uptime_fp binary64 0 load sol = Inr (0, load, battery_uptime, load_served) \<and>
               ((\<forall>x\<in>set sol. x = 0) \<longrightarrow> load_served = 0)"
      by blast
    with len each show "?inv t s" by blast
  qed
  from empty returns inv show ?thesis by blast
qed

theorem uptime_fp_without_battery_witness:
  "(\<exists>t s battery_uptime.
      uptime_trajectories_fp binary64 0 2 [0, 0] = Inr (t, s) \<and>
      utilization s ! 0 = 0 \<and> utilization s ! 1 = 0 \<and>
      uptime_fp binary64 0 2 [0, 0] = Inr (0, 2, battery_uptime, 0)) \<and>
   (\<exists>t s. uptime_trajectories_fp binary64 0 2 [1, 3] = Inr (t, s) \<and>
      utilization s ! 0 = binary64 (binary64 (1 * t) / binary64 (2 * t)) \<and>
      0 \<le> utilization s ! 0 \<and> utilization s ! 0 \<le> 1 \<and> utilization s ! 1 = 1)"
proof -
  have h0: "\<forall>x\<in>set [0, 0 :: real]. double_in_range x \<and> 0 \<le> x" "double_in_range 2" "(0::real) < 2"
    by simp_all
  have d0: "[0, 0 :: real] \<noteq> [] \<and> binary64 (2 * binary64 (8760 / real (length [0, 0 :: real]))) \<noteq> 0"
    by simp
  note zeros = uptime_fp_without_battery [OF h0]
  from zeros [THEN conjunct2, THEN conjunct1, rule_format, OF d0] obtain t s where
    tr: "uptime_trajectories_fp binary64 0 2 [0, 0] = Inr (t, s)" by blast
  note inv = zeros [THEN conjunct2, THEN conjunct2, rule_format, OF tr]
  note each = inv [THEN conjunct2, THEN conjunct1, rule_format]
  have u: "utilization s ! 0 = 0" "utilization s ! 1 = 0"
    using each [of 0] each [of 1] by simp_all
  from inv [THEN conjunct2, THEN conjunct2] obtain battery_uptime load_served where r:
    "uptime_fp binary64 0 2 [0, 0] = Inr (0, 2, battery_uptime, load_served)"
    "(\<forall>x\<in>set [0, 0 :: real]. x = 0) \<longrightarrow> load_served = 0"
    by blast
  from r(2) have "load_served = 0" by simp
  with tr u r(1) have a: "\<exists>t s battery_uptime.
      uptime_trajectories_fp binary64 0 2 [0, 0] = Inr (t, s) \<and>
      utilization s ! 0 = 0 \<and> utilization s ! 1 = 0 \<and>
      uptime_fp binary64 0 2 [0, 0] = Inr (0, 2, battery_uptime, 0)" by blast
  have h1: "\<forall>x\<in>set [1, 3 :: real]. double_in_range x \<and> 0 \<le> x" by simp
  have d1: "[1, 3 :: real] \<noteq> [] \<and> binary64 (2 * binary64 (8760 / real (length [1, 3 :: real]))) \<noteq> 0"
    by simp
  note mixed = uptime_fp_without_battery [OF h1 h0(2,3)]
  from mixed [THEN conjunct2, THEN conjunct1, rule_format, OF d1] obtain t' s' where
    tr': "uptime_trajectories_fp binary64 0 2 [1, 3] = Inr (t', s')" by blast
  note each' = mixed [THEN conjunct2, THEN conjunct2, rule_format, OF tr',
      THEN conjunct2, THEN conjunct1, rule_format]
  have "utilization s' ! 0 = binary64 (binary64 (1 * t') / binary64 (2 * t'))"
    "0 \<le> utilization s' ! 0" "utilization s' ! 0 \<le> 1" "utilization s' ! 1 = 1"
    using each' [of 0] each' [of 1] by simp_all
  with tr' a show ?thesis by blast
qed

text \<open>
  The claim as first stated, that the utilization equals \<open>min (sol[i] / load) 1\<close>, fails in
  double precision for the load 0.3 and the one sample 0.1: the utilization is
  0.3333333333333333, one unit in the last place below the double quotient
  \<open>sol[0] / load\<close>, and different from the exact quotient of the two doubles.
\<close>

theorem utilization_differs_from_quotient:
  "uptime_trajectories_fp binary64 0 (binary64 (3 / 10)) [binary64 (1 / 10)]
     = Inr (8760, \<lparr>battery = [0, 0],
                   utilization = [6004799503160661 / 18014398509481984]\<rparr>) \<and>
   min (binary64 (binary64 (1 / 10) / binary64 (3 / 10))) 1
     = 6004799503160662 / 18014398509481984 \<and>
   min (binary64 (1 / 10) / binary64 (3 / 10)) 1 \<noteq> 6004799503160661 / 18014398509481984"
  by (simp add: uptime_trajectories_fp_def interval_step_fp_def py_truediv_fp_def
      binary64_values)

lemma uptime_loop_fp_invariant:
  assumes "I 0 s0"
    and "\<And>i s. i < k \<Longrightarrow> I i s \<Longrightarrow>
           \<exists>s'. interval_step_fp rnd capacity load t sol i s = Inr s' \<and> I (Suc i) s'"
  shows "\<exists>s. uptime_loop_fp rnd capacity load t sol [0..<k] s0 = Inr s \<and> I k s"
  using assms(2)
proof (induction k)
  case 0
  then show ?case using assms(1) by simp
next
  case (Suc k)
  have "\<exists>s. uptime_loop_fp rnd capacity load t sol [0..<k] s0 = Inr s \<and> I k s"
    using Suc.IH Suc.prems by simp
  then obtain s where s: "uptime_loop_fp rnd capacity load t sol [0..<k] s0 = Inr s" "I k s"
    by blast
  obtain s' where s': "interval_step_fp rnd capacity load t sol k s = Inr s'" "I (Suc k) s'"
    using Suc.prems [of k s] s(2) by auto
  have "uptime_loop_fp rnd capacity load t sol [0..<Suc k] s0 = Inr s'"
    by (simp add: uptime_loop_fp_append s(1) s'(1))
  with s'(2) show ?case by blast
qed

lemma held_step_fp:
  assumes "held b (length sol) i s" "i < length sol" "sol ! i = load"
    and "dispatch_fp rnd capacity load t b load = Inr (1, b)"
  shows "\<exists>s'. interval_step_fp rnd capacity load t sol i s = Inr s'
              \<and> held b (length sol) (Suc i) s'"
proof -
  let ?s' = "\<lparr>battery = (battery s)[i + 1 := b], utilization = (utilization s)[i := 1]\<rparr>"
  have bi: "battery s ! i = b" using assms(1) by (simp add: held_def)
  have "interval_step_fp rnd capacity load t sol i s = Inr ?s'"
    by (simp add: interval_step_fp_dispatch bi assms(3,4))
  moreover have "Suc i < length (battery s)" "i < length (utilization s)"
    using assms(1,2) by (simp_all add: held_def)
  then have "held b (length sol) (Suc i) ?s'"
    using assms(1) by (auto simp: held_def nth_list_update less_Suc_eq le_Suc_eq)
  ultimately show ?thesis by blast
qed

lemma uptime_fp_constant:
  assumes "rounding rnd" "sol \<noteq> []" "\<forall>x\<in>set sol. x = load"
    and "rnd capacity = capacity" "0 \<le> capacity"
    and "\<And>k. k \<le> length sol \<Longrightarrow> rnd (real k) = real k"
    and "0 < capacity \<or> rnd (load * rnd (rnd 8760 / real (length sol))) \<noteq> 0"
  shows "\<exists>s. uptime_trajectories_fp rnd capacity load sol
               = Inr (rnd (rnd 8760 / real (length sol)), s)
             \<and> held capacity (length sol) (length sol) s"
    and "uptime_fp rnd capacity load sol =
           Inr (capacity, load, if 0 < capacity then 1 else 0,
                rnd (rnd (rnd (rnd 8760 / real (length sol)) * real (length sol)) / 8760))"
proof -
  let ?n = "length sol"
  let ?t = "rnd (rnd 8760 / real ?n)"
  let ?s0 = "\<lparr>battery = [capacity] @ map (\<lambda>_. 0) sol, utilization = map (\<lambda>_. 0) sol\<rparr>"
  have d: "dispatch_fp rnd capacity load ?t capacity load = Inr (1, capacity)"
  proof (cases "0 < capacity")
    case True
    from dispatch_fp_balanced(1) [OF assms(1) True, of capacity load ?t] assms(4) show ?thesis by simp
  next
    case False
    then have c: "capacity = 0" "rnd (load * ?t) \<noteq> 0" using assms(5,7) by simp_all
    from dispatch_fp_balanced(2) [OF assms(1) c(2), of capacity] c(1) show ?thesis by simp
  qed
  have init: "held capacity ?n 0 ?s0" by (simp add: held_def)
  have step: "\<exists>s'. interval_step_fp rnd capacity load ?t sol i s = Inr s' \<and> held capacity ?n (Suc i) s'"
    if "i < ?n" "held capacity ?n i s" for i s
    using held_step_fp [OF that(2,1) _ d] assms(3) that(1) by simp
  from uptime_loop_fp_invariant [of "held capacity ?n" ?s0 ?n rnd capacity load ?t sol, OF init step]
  obtain s where s: "uptime_loop_fp rnd capacity load ?t sol [0..<?n] ?s0 = Inr s"
    "held capacity ?n ?n s"
    by blast
  have tr: "uptime_trajectories_fp rnd capacity load sol = Inr (?t, s)"
    using s(1) assms(2) by (simp add: uptime_trajectories_fp_def t_interval_fp)
  with s(2) show "\<exists>s. uptime_trajectories_fp rnd capacity load sol = Inr (?t, s)
             \<and> held capacity ?n ?n s" by blast
  have len: "length (utilization s) = ?n" using s(2) by (simp add: held_def)
  have ones: "\<forall>u\<in>set (utilization s). u = 1"
    using s(2) by (auto simp: held_def in_set_conv_nth)
  have "sum_fp rnd (utilization s) (real 0) = real (0 + length (utilization s))"
    using assms(6) ones len by (intro sum_fp_ones [where n = ?n]) simp_all
  then have sum: "sum_fp rnd (utilization s) 0 = real ?n" using len by simp
  have bl: "butlast (battery s) = replicate ?n capacity" using held_butlast [OF s(2)] .
  have n: "real ?n \<noteq> 0" using assms(2) by simp
  have "rnd (real ?n / real ?n) = 1" using n assms(1) by (simp add: rounding_simps)
  moreover have "rnd 0 = 0" using assms(1) by (simp add: rounding_simps)
  ultimately show "uptime_fp rnd capacity load sol =
           Inr (capacity, load, if 0 < capacity then 1 else 0, rnd (rnd (?t * real ?n) / 8760))"
    using uptime_fp_of_trajectories [OF tr] by (simp add: sum bl)
qed

lemma uptime_fp_raises_at_first_interval:
  assumes "sol \<noteq> []"
    and "dispatch_fp rnd capacity load (rnd (rnd 8760 / real (length sol))) capacity (sol ! 0) = Inl e"
  shows "uptime_fp rnd capacity load sol = Inl e"
proof -
  have n: "0 < length sol" using assms(1) by simp
  have upt: "[0..<length sol] = 0 # [1..<length sol]" using n by (simp add: upt_conv_Cons)
  show ?thesis
    using assms
    by (simp add: uptime_fp_def uptime_trajectories_fp_def t_interval_fp upt
        interval_step_fp_dispatch)
qed

text \<open>
  Claim C8, as amended. For a non-empty solar series of at most \<open>2 ^ 53\<close> samples that all
  equal the load, with a capacity \<open>\<ge> 0\<close> (doubles of magnitude at most \<open>2 ^ 1000\<close>), in
  double precision: when the capacity is positive, or \<open>load * t_interval\<close> does not round
  to zero, \<open>uptime\<close> returns; every utilization is exactly 1 and the battery stays at the
  capacity; the battery-uptime fraction is 1 for a positive capacity and 0 for capacity 0;
  the load-served fraction is \<open>t_interval * n / 8760\<close> with \<open>t_interval = 8760 / n\<close>, each
  operation rounded. It is exactly 1 when \<open>t_interval * n\<close> is 8760, and equal to 1 only
  up to rounding otherwise. With capacity 0 and \<open>load * t_interval\<close> rounding to zero the
  call raises \<open>ZeroDivisionError\<close>.
\<close>

theorem uptime_fp_constant_at_load:
  assumes "sol \<noteq> []" "\<forall>x\<in>set sol. x = load" "double_in_range load"
    and "double_in_range capacity" "0 \<le> capacity" "length sol \<le> 2 ^ 53"
  shows "(0 < capacity \<or> binary64 (load * binary64 (8760 / real (length sol))) \<noteq> 0 \<longrightarrow>
            (\<exists>s. uptime_trajectories_fp binary64 capacity load sol
                   = Inr (binary64 (8760 / real (length sol)), s) \<and>
                 (\<forall>i<length sol + 1. battery s ! i = capacity) \<and>
                 (\<forall>i<length sol. utilization s ! i = 1)) \<and>
            uptime_fp binary64 capacity load sol =
              Inr (capacity, load, if 0 < capacity then 1 else 0,
                   binary64 (binary64 (binary64 (8760 / real (length sol)) * real (length sol))
                             / 8760))) \<and>
         (binary64 (8760 / real (length sol)) * real (length sol) = 8760 \<longrightarrow>
            binary64 (binary64 (binary64 (8760 / real (length sol)) * real (length sol)) / 8760)
              = 1) \<and>
         (capacity = 0 \<and> binary64 (load * binary64 (8760 / real (length sol))) = 0 \<longrightarrow>
            uptime_fp binary64 capacity load sol = Inl ZeroDivisionError)"
proof -
  note r = rounding_binary64
  let ?t = "binary64 (8760 / real (length sol))"
  have cap: "binary64 capacity = capacity" using assms(4) by (simp add: double_in_range_def)
  have nat: "binary64 (real k) = real k" if "k \<le> length sol" for k
    using that assms(6) by (intro binary64_of_nat) simp
  have served: "0 < capacity \<or> binary64 (load * ?t) \<noteq> 0 \<longrightarrow>
            (\<exists>s. uptime_trajectories_fp binary64 capacity load sol = Inr (?t, s) \<and>
                 (\<forall>i<length sol + 1. battery s ! i = capacity) \<and>
                 (\<forall>i<length sol. utilization s ! i = 1)) \<and>
            uptime_fp binary64 capacity load sol =
              Inr (capacity, load, if 0 < capacity then 1 else 0,
                   binary64 (binary64 (?t * real (length sol)) / 8760))"
  proof
    assume a: "0 < capacity \<or> binary64 (load * ?t) \<noteq> 0"
    then have a': "0 < capacity \<or> binary64 (load * binary64 (binary64 8760 / real (length sol))) \<noteq> 0"
      by simp
    from uptime_fp_constant(1) [OF r assms(1,2) cap assms(5) nat a']
    obtain s where s: "uptime_trajectories_fp binary64 capacity load sol = Inr (?t, s)"
      "held capacity (length sol) (length sol) s"
      by auto
    have "\<forall>i<length sol + 1. battery s ! i = capacity" "\<forall>i<length sol. utilization s ! i = 1"
      using s(2) by (simp_all add: held_def)
    moreover have "uptime_fp binary64 capacity load sol =
              Inr (capacity, load, if 0 < capacity then 1 else 0,
                   binary64 (binary64 (?t * real (length sol)) / 8760))"
      using uptime_fp_constant(2) [OF r assms(1,2) cap assms(5) nat a'] by simp
    ultimately show "(\<exists>s. uptime_trajectories_fp binary64 capacity load sol = Inr (?t, s) \<and>
                 (\<forall>i<length sol + 1. battery s ! i = capacity) \<and>
                 (\<forall>i<length sol. utilization s ! i = 1)) \<and>
            uptime_fp binary64 capacity load sol =
              Inr (capacity, load, if 0 < capacity then 1 else 0,
                   binary64 (binary64 (?t * real (length sol)) / 8760))"
      using s(1) by blast
  qed
  have exact: "?t * real (length sol) = 8760 \<longrightarrow>
            binary64 (binary64 (?t * real (length sol)) / 8760) = 1"
    by simp
  have raises: "capacity = 0 \<and> binary64 (load * ?t) = 0 \<longrightarrow>
            uptime_fp binary64 capacity load sol = Inl ZeroDivisionError"
  proof
    assume a: "capacity = 0 \<and> binary64 (load * ?t) = 0"
    have "sol ! 0 = load" using assms(1,2) by (cases sol) simp_all
    then have "dispatch_fp binary64 capacity load (binary64 (binary64 8760 / real (length sol)))
                 capacity (sol ! 0) = Inl ZeroDivisionError"
      using a dispatch_fp_balanced(3) [OF r, of load ?t capacity] by simp
    from uptime_fp_raises_at_first_interval [OF assms(1) this]
    show "uptime_fp binary64 capacity load sol = Inl ZeroDivisionError" .
  qed
  from served exact raises show ?thesis by blast
qed

theorem uptime_fp_constant_at_load_witness:
  "uptime_fp binary64 5 3 [3, 3] = Inr (5, 3, 1, 1) \<and>
   uptime_fp binary64 0 3 [3, 3] = Inr (0, 3, 0, 1)"
  using uptime_fp_constant_at_load [of "[3, 3]" 3 5] uptime_fp_constant_at_load [of "[3, 3]" 3 0]
  by simp

text \<open>
  The claim as first stated, with load-served fraction exactly 1, fails in double precision
  for a series of 539 samples: \<open>8760 / 539\<close> is rounded up, its product with 539 is above
  8760, and the fraction returned is \<open>1 + 2 ^ -52\<close>.
\<close>

theorem full_service_fraction_exceeds_one:
  "uptime_fp binary64 1 1 (replicate 539 1)
     = Inr (1, 1, 1, 4503599627370497 / 4503599627370496)"
proof -
  have nat: "binary64 (real k) = real k" if "k \<le> length (replicate 539 (1::real))" for k
    using that by (intro binary64_of_nat) simp
  from uptime_fp_constant(2)
    [OF rounding_binary64, of "replicate 539 1" 1 1, OF _ _ _ _ nat]
  show ?thesis by (simp add: binary64_values)
qed

text \<open>
  Claim C9, as amended. For a load \<open>> 0\<close>, a solar series with entries \<open>\<ge> 0\<close> and
  capacities \<open>0 \<le> c1 \<le> c2\<close> (doubles of magnitude at most \<open>2 ^ 1000\<close>), in double
  precision: both calls return on a non-empty series unless \<open>load * t_interval\<close> rounds
  to zero. Whenever both return, the battery list for \<open>c2\<close> is at least the one for
  \<open>c1\<close> at every index; in every interval the utilization for \<open>c2\<close> is exactly 1 or at
  least the utilization for \<open>c1\<close>; and when no utilization for \<open>c1\<close> exceeds 1, the
  load-served fraction returned for \<open>c2\<close> is at least the one returned for \<open>c1\<close>.
\<close>

theorem uptime_fp_monotone_in_capacity:
  assumes "\<forall>x\<in>set sol. double_in_range x \<and> 0 \<le> x" "double_in_range load" "0 < load"
    and "double_in_range c1" "double_in_range c2" "0 \<le> c1" "c1 \<le> c2"
  shows "(sol \<noteq> [] \<and> binary64 (load * binary64 (8760 / real (length sol))) \<noteq> 0 \<longrightarrow>
            (\<exists>t s1 s2. uptime_trajectories_fp binary64 c1 load sol = Inr (t, s1) \<and>
                       uptime_trajectories_fp binary64 c2 load sol = Inr (t, s2))) \<and>
         (\<forall>t1 s1 t2 s2.
            uptime_trajectories_fp binary64 c1 load sol = Inr (t1, s1) \<and>
            uptime_trajectories_fp binary64 c2 load sol = Inr (t2, s2) \<longrightarrow>
            t1 = t2 \<and>
            (\<forall>i<length sol + 1. battery s1 ! i \<le> battery s2 ! i) \<and>
            (\<forall>i<length sol. utilization s2 ! i = 1 \<or> utilization s1 ! i \<le> utilization s2 ! i) \<and>
            (\<exists>battery_uptime1 load_served1 battery_uptime2 load_served2.
               uptime_fp binary64 c1 load sol = Inr (c1, load, battery_uptime1, load_served1) \<and>
               uptime_fp binary64 c2 load sol = Inr (c2, load, battery_uptime2, load_served2) \<and>
               ((\<forall>i<length sol. utilization s1 ! i \<le> 1) \<longrightarrow> load_served1 \<le> load_served2)))"
proof -
  note r = rounding_binary64
  have load: "0 \<le> load" using assms(3) by simp
  have returns: "sol \<noteq> [] \<and> binary64 (load * binary64 (8760 / real (length sol))) \<noteq> 0 \<longrightarrow>
            (\<exists>t s1 s2. uptime_trajectories_fp binary64 c1 load sol = Inr (t, s1) \<and>
                       uptime_trajectories_fp binary64 c2 load sol = Inr (t, s2))"
    using uptime_trajectories_fp_returns [of sol binary64 load c1]
      uptime_trajectories_fp_returns [of sol binary64 load c2]
    by auto
  have inv: "\<forall>t1 s1 t2 s2.
            uptime_trajectories_fp binary64 c1 load sol = Inr (t1, s1) \<and>
            uptime_trajectories_fp binary64 c2 load sol = Inr (t2, s2) \<longrightarrow>
            t1 = t2 \<and>
            (\<forall>i<length sol + 1. battery s1 ! i \<le> battery s2 ! i) \<and>
            (\<forall>i<length sol. utilization s2 ! i = 1 \<or> utilization s1 ! i \<le> utilization s2 ! i) \<and>
            (\<exists>battery_uptime1 load_served1 battery_uptime2 load_served2.
               uptime_fp binary64 c1 load sol = Inr (c1, load, battery_uptime1, load_served1) \<and>
               uptime_fp binary64 c2 load sol = Inr (c2, load, battery_uptime2, load_served2) \<and>
               ((\<forall>i<length sol. utilization s1 ! i \<le> 1) \<longrightarrow> load_served1 \<le> load_served2))"
    (is "\<forall>t1 s1 t2 s2. _ \<longrightarrow> ?inv t1 s1 t2 s2")
  proof (intro allI impI)
    fix t1 s1 t2 s2
    assume tr: "uptime_trajectories_fp binary64 c1 load sol = Inr (t1, s1) \<and>
                uptime_trajectories_fp binary64 c2 load sol = Inr (t2, s2)"
    then have tr1: "uptime_trajectories_fp binary64 c1 load sol = Inr (t1, s1)"
      and tr2: "uptime_trajectories_fp binary64 c2 load sol = Inr (t2, s2)" by simp_all
    from uptime_trajectories_fp_follows [OF tr1] have
      t1: "t1 = binary64 (binary64 8760 / real (length sol))"
      and f1: "follows_fp binary64 c1 load t1 sol (length sol) s1"
      and b1: "battery s1 ! 0 = c1"
      by blast+
    from uptime_trajectories_fp_follows [OF tr2] have
      t2: "t2 = binary64 (binary64 8760 / real (length sol))"
      and f2': "follows_fp binary64 c2 load t2 sol (length sol) s2"
      and b2: "battery s2 ! 0 = c2"
      by blast+
    have teq: "t1 = t2" using t1 t2 by simp
    have f2: "follows_fp binary64 c2 load t1 sol (length sol) s2" using f2' teq by simp
    have t0: "0 \<le> t1" unfolding t1 using r by (rule t_interval_nonneg)
    have b0: "battery s1 ! 0 \<le> battery s2 ! 0" using b1 b2 assms(7) by simp
    have len: "length (utilization s1) = length sol" "length (utilization s2) = length sol"
      using f1 f2 by (simp_all add: follows_fp_def)
    have bat: "\<forall>i<length sol + 1. battery s1 ! i \<le> battery s2 ! i"
      using follows_fp_mono [OF f1 f2 r t0 load assms(7) b0] by simp
    have ut: "\<forall>i<length sol. utilization s2 ! i = 1 \<or> utilization s1 ! i \<le> utilization s2 ! i"
      using follows_fp_mono_utilization [OF f1 f2 r t0 load assms(7) b0] by simp
    let ?ls1 = "binary64 (binary64 (t1 * sum_fp binary64 (utilization s1) 0) / 8760)"
    let ?ls2 = "binary64 (binary64 (t1 * sum_fp binary64 (utilization s2) 0) / 8760)"
    have up1: "\<exists>bu. uptime_fp binary64 c1 load sol = Inr (c1, load, bu, ?ls1)"
      using uptime_fp_of_trajectories [OF tr1] by simp
    have up2: "\<exists>bu. uptime_fp binary64 c2 load sol = Inr (c2, load, bu, ?ls2)"
      using uptime_fp_of_trajectories [OF tr2] teq by simp
    have "?ls1 \<le> ?ls2" if "\<forall>i<length sol. utilization s1 ! i \<le> 1"
    proof -
      have "\<forall>i<length (utilization s1). utilization s1 ! i \<le> utilization s2 ! i"
        using ut that len by fastforce
      from sum_fp_mono [OF r _ this, of 0 0] len
      have "sum_fp binary64 (utilization s1) 0 \<le> sum_fp binary64 (utilization s2) 0" by simp
      then have "t1 * sum_fp binary64 (utilization s1) 0 \<le> t1 * sum_fp binary64 (utilization s2) 0"
        using t0 by (intro mult_left_mono) simp_all
      then have "binary64 (t1 * sum_fp binary64 (utilization s1) 0)
                   \<le> binary64 (t1 * sum_fp binary64 (utilization s2) 0)"
        by (rule binary64_mono)
      then have "binary64 (t1 * sum_fp binary64 (utilization s1) 0) / 8760
                   \<le> binary64 (t1 * sum_fp binary64 (utilization s2) 0) / 8760"
        by (simp add: divide_right_mono)
      then show ?thesis by (rule binary64_mono)
    qed
    with up1 up2 have "\<exists>battery_uptime1 load_served1 battery_uptime2 load_served2.
               uptime_fp binary64 c1 load sol = Inr (c1, load, battery_uptime1, load_served1) \<and>
               uptime_fp binary64 c2 load sol = Inr (c2, load, battery_uptime2, load_served2) \<and>
               ((\<forall>i<length sol. utilization s1 ! i \<le> 1) \<longrightarrow> load_served1 \<le> load_served2)"
      by blast
    with teq bat ut show "?inv t1 s1 t2 s2" by blast
  qed
  from returns inv show ?thesis by blast
qed

lemma flat_run:
  "uptime_trajectories_fp binary64 0 1 [0, 2]
     = Inr (4380, \<lparr>battery = [0, 0, 0], utilization = [0, 1]\<rparr>)"
  by (simp add: uptime_trajectories_fp_def interval_step_fp_def py_truediv_fp_def upt_rec)

theorem uptime_fp_monotone_in_capacity_witness:
  "\<exists>t s1 s2 battery_uptime1 load_served1 battery_uptime2 load_served2.
     uptime_trajectories_fp binary64 0 1 [0, 2] = Inr (t, s1) \<and>
     uptime_trajectories_fp binary64 1 1 [0, 2] = Inr (t, s2) \<and>
     battery s1 ! 0 \<le> battery s2 ! 0 \<and> battery s1 ! 1 \<le> battery s2 ! 1 \<and>
     battery s1 ! 2 \<le> battery s2 ! 2 \<and>
     uptime_fp binary64 0 1 [0, 2] = Inr (0, 1, battery_uptime1, load_served1) \<and>
     uptime_fp binary64 1 1 [0, 2] = Inr (1, 1, battery_uptime2, load_served2) \<and>
     load_served1 \<le> load_served2"
proof -
  have h: "\<forall>x\<in>set [0, 2 :: real]. double_in_range x \<and> 0 \<le> x" "double_in_range 1" "(0::real) < 1"
    "double_in_range 0" "double_in_range 1" "(0::real) \<le> 0" "(0::real) \<le> 1"
    by simp_all
  have d: "[0, 2 :: real] \<noteq> [] \<and> binary64 (1 * binary64 (8760 / real (length [0, 2 :: real]))) \<noteq> 0"
    by simp
  from uptime_fp_monotone_in_capacity [OF h] d obtain t s1 s2 where
    tr: "uptime_trajectories_fp binary64 0 1 [0, 2] = Inr (t, s1)"
    "uptime_trajectories_fp binary64 1 1 [0, 2] = Inr (t, s2)"
    by blast
  have s1: "s1 = \<lparr>battery = [0, 0, 0], utilization = [0, 1]\<rparr>" using tr(1) flat_run by simp
  have u1: "\<forall>i<length [0, 2 :: real]. utilization s1 ! i \<le> 1"
    unfolding s1 by (simp add: less_Suc_eq)
  from uptime_fp_monotone_in_capacity [OF h] tr u1
  obtain battery_uptime1 load_served1 battery_uptime2 load_served2 where r:
    "\<forall>i<length [0, 2 :: real] + 1. battery s1 ! i \<le> battery s2 ! i"
    "uptime_fp binary64 0 1 [0, 2] = Inr (0, 1, battery_uptime1, load_served1)"
    "uptime_fp binary64 1 1 [0, 2] = Inr (1, 1, battery_uptime2, load_served2)"
    "load_served1 \<le> load_served2"
    by fastforce
  from r(1) have "battery s1 ! 0 \<le> battery s2 ! 0" "battery s1 ! 1 \<le> battery s2 ! 1"
    "battery s1 ! 2 \<le> battery s2 ! 2" by simp_all
  with tr r show ?thesis by blast
qed

text \<open>
  The claim as first stated, that the load-served fraction never decreases when the
  capacity grows, fails in double precision: for the load 0.09 and the one sample 0.03
  the capacity 525.6 returns \<open>1 + 2 ^ -52\<close> and the larger capacity 600 returns 1.
\<close>

theorem served_fraction_not_monotone:
  "binary64 (5256 / 10) \<le> 600 \<and>
   uptime_fp binary64 (binary64 (5256 / 10)) (binary64 (9 / 100)) [binary64 (3 / 100)]
     = Inr (binary64 (5256 / 10), binary64 (9 / 100), 1, 4503599627370497 / 4503599627370496) \<and>
   uptime_fp binary64 600 (binary64 (9 / 100)) [binary64 (3 / 100)]
     = Inr (600, binary64 (9 / 100), 1, 1)"
proof -
  have "binary64 (5256 / 10) \<le> 600" by (simp add: binary64_values)
  moreover have "uptime_fp binary64 600 (binary64 (9 / 100)) [binary64 (3 / 100)]
     = Inr (600, binary64 (9 / 100), 1, 1)"
    by (simp add: uptime_fp_def uptime_trajectories_fp_def interval_step_fp_def
      py_truediv_fp_def binary64_values)
  ultimately show ?thesis using overshoot_run(2) by simp
qed

end
